theory Spec2Isabelle
  imports Main
begin

section \<open>Lesson2/Chess.py: data model\<close>

text \<open>
  \<^verbatim>\<open>Position = Tuple[int, int]\<close> is a pair (x, y) of unbounded Python integers: x is the
  file (column), y the rank (row).  \<^verbatim>\<open>class Color(Enum)\<close> has the two members WHITE and
  BLACK.  The three concrete subclasses of \<^verbatim>\<open>ChessPiece\<close> become a tag, and a piece
  object is a record of its tag and the two attributes set by \<^verbatim>\<open>__init__\<close>.
\<close>

type_synonym Position = "int \<times> int"

datatype Color = WHITE | BLACK

datatype PieceKind = Pawn | Rook | Bishop

record ChessPiece =
  kind :: PieceKind
  color :: Color
  position :: Position

text \<open>\<^verbatim>\<open>BoardType = List[List[Optional['ChessPiece']]]\<close>, indexed \<^verbatim>\<open>board[y][x]\<close>.\<close>

type_synonym BoardType = "ChessPiece option list list"

text \<open>The only exception the modelled methods can raise.\<close>

datatype error = IndexError

subsection \<open>Python list indexing\<close>

text \<open>
  \<^verbatim>\<open>xs[i]\<close>: an index from \<open>-len(xs)\<close> up to \<open>len(xs) - 1\<close> is accepted, a negative one
  counting from the end; anything else raises IndexError.
\<close>

definition py_index :: "'a list \<Rightarrow> int \<Rightarrow> nat option" where
  "py_index xs i =
     (if 0 \<le> i \<and> i < int (length xs) then Some (nat i)
      else if - int (length xs) \<le> i \<and> i < 0 then Some (nat (i + int (length xs)))
      else None)"

text \<open>\<^verbatim>\<open>board[y][x]\<close> as an expression: the row is looked up first, then the cell.\<close>

definition getitem2 :: "'a list list \<Rightarrow> int \<Rightarrow> int \<Rightarrow> error + 'a" where
  "getitem2 board x y =
     (case py_index board y of
        None \<Rightarrow> Inl IndexError
      | Some r \<Rightarrow>
          (case py_index (board ! r) x of
             None \<Rightarrow> Inl IndexError
           | Some c \<Rightarrow> Inr (board ! r ! c)))"

text \<open>
  \<^verbatim>\<open>board[y][x] = v\<close> as a statement.  The rows of a \<^verbatim>\<open>ChessBoard\<close> are eight separate
  list objects (built by a nested comprehension), so the assignment changes one row only.
\<close>

definition setitem2 :: "'a list list \<Rightarrow> int \<Rightarrow> int \<Rightarrow> 'a \<Rightarrow> error + 'a list list" where
  "setitem2 board x y v =
     (case py_index board y of
        None \<Rightarrow> Inl IndexError
      | Some r \<Rightarrow>
          (case py_index (board ! r) x of
             None \<Rightarrow> Inl IndexError
           | Some c \<Rightarrow> Inr (board[r := (board ! r)[c := v]])))"

text \<open>The chained comparison \<^verbatim>\<open>0 <= nx < 8 and 0 <= ny < 8\<close>.\<close>

definition in_bounds :: "int \<Rightarrow> int \<Rightarrow> bool" where
  "in_bounds nx ny \<longleftrightarrow> 0 \<le> nx \<and> nx < 8 \<and> 0 \<le> ny \<and> ny < 8"

section \<open>Pieces\<close>

subsection \<open>\<^verbatim>\<open>ChessPiece.is_path_clear\<close>\<close>

text \<open>
  The \<^verbatim>\<open>while (cx, cy) != (x, y)\<close> loop, entered at \<open>(px + dx, py + dy)\<close>.  It returns
  False at the first occupied cell, True on reaching the target, raises IndexError when
  it walks off the lists, and does not return at all when it stands still on an empty
  cell (\<open>dx = dy = 0\<close>): that is the value \<open>None\<close>.
\<close>

partial_function (option) path_loop ::
  "BoardType \<Rightarrow> int \<Rightarrow> int \<Rightarrow> int \<Rightarrow> int \<Rightarrow> int \<Rightarrow> int \<Rightarrow> (error + bool) option" where
  "path_loop board x y dx dy cx cy =
     (if (cx, cy) \<noteq> (x, y) then
        (case getitem2 board cx cy of
           Inl e \<Rightarrow> Some (Inl e)
         | Inr cell \<Rightarrow>
             (case cell of
                Some occupant \<Rightarrow> Some (Inr False)
              | None \<Rightarrow> path_loop board x y dx dy (cx + dx) (cy + dy)))
      else Some (Inr True))"

declare path_loop.simps [code]

definition is_path_clear ::
  "ChessPiece \<Rightarrow> int \<Rightarrow> int \<Rightarrow> BoardType \<Rightarrow> int \<Rightarrow> int \<Rightarrow> (error + bool) option" where
  "is_path_clear self x y board dx dy =
     (case position self of (px, py) \<Rightarrow> path_loop board x y dx dy (px + dx) (py + dy))"

subsection \<open>\<^verbatim>\<open>Pawn\<close>\<close>

text \<open>
  Both \<^verbatim>\<open>Pawn.get_possible_moves\<close> and \<^verbatim>\<open>Pawn.can_attack\<close> compute
  \<^verbatim>\<open>direction = 1 if self.color == 'white' else -1\<close>.  The attribute \<^verbatim>\<open>color\<close> is a
  member of \<^verbatim>\<open>Color\<close> (\<^verbatim>\<open>__init__\<close> raises ValueError for anything else), and
  \<^verbatim>\<open>Color\<close> derives from \<^verbatim>\<open>Enum\<close> alone, whose members compare by identity: a member
  never equals a \<^verbatim>\<open>str\<close>, whatever its value.
\<close>

definition color_eq_str :: "Color \<Rightarrow> string \<Rightarrow> bool" where
  "color_eq_str c s \<longleftrightarrow> False"

definition pawn_direction :: "ChessPiece \<Rightarrow> int" where
  "pawn_direction self = (if color_eq_str (color self) ''white'' then 1 else - 1)"

text \<open>
  The first \<^verbatim>\<open>if\<close> of \<^verbatim>\<open>Pawn.get_possible_moves\<close>: only the rank is range-checked before
  \<^verbatim>\<open>board[y + direction][x]\<close> is read.
\<close>

definition pawn_forward :: "ChessPiece \<Rightarrow> BoardType \<Rightarrow> error + Position list" where
  "pawn_forward self board =
     (case position self of (x, y) \<Rightarrow>
        let direction = pawn_direction self in
        if 0 \<le> y + direction \<and> y + direction < 8 then
          (case getitem2 board x (y + direction) of
             Inl e \<Rightarrow> Inl e
           | Inr cell \<Rightarrow> if cell = None then Inr [(x, y + direction)] else Inr [])
        else Inr [])"

text \<open>The loop \<^verbatim>\<open>for dx in [-1, 1]\<close>, appending to \<^verbatim>\<open>moves\<close>.\<close>

fun pawn_diagonals ::
  "ChessPiece \<Rightarrow> BoardType \<Rightarrow> int list \<Rightarrow> Position list \<Rightarrow> error + Position list" where
  "pawn_diagonals self board [] moves = Inr moves"
| "pawn_diagonals self board (dx # dxs) moves =
     (case position self of (x, y) \<Rightarrow>
        let nx = x + dx; ny = y + pawn_direction self in
        if in_bounds nx ny then
          (case getitem2 board nx ny of
             Inl e \<Rightarrow> Inl e
           | Inr target \<Rightarrow>
               (case target of
                  None \<Rightarrow> pawn_diagonals self board dxs moves
                | Some t \<Rightarrow>
                    if color t \<noteq> color self
                    then pawn_diagonals self board dxs (moves @ [(nx, ny)])
                    else pawn_diagonals self board dxs moves))
        else pawn_diagonals self board dxs moves)"

definition Pawn_get_possible_moves :: "ChessPiece \<Rightarrow> BoardType \<Rightarrow> error + Position list" where
  "Pawn_get_possible_moves self board =
     (case pawn_forward self board of
        Inl e \<Rightarrow> Inl e
      | Inr moves \<Rightarrow> pawn_diagonals self board [- 1, 1] moves)"

definition Pawn_can_attack :: "ChessPiece \<Rightarrow> int \<Rightarrow> int \<Rightarrow> BoardType \<Rightarrow> error + bool" where
  "Pawn_can_attack self x y board =
     (if \<not> in_bounds x y then Inr False
      else
        (case position self of (px, py) \<Rightarrow>
           let direction = pawn_direction self in
           if (x = px - 1 \<or> x = px + 1) \<and> y = py + direction then
             (case getitem2 board x y of
                Inl e \<Rightarrow> Inl e
              | Inr target \<Rightarrow>
                  (case target of
                     None \<Rightarrow> Inr False
                   | Some t \<Rightarrow> if color t \<noteq> color self then Inr True else Inr False))
           else Inr False))"

subsection \<open>\<^verbatim>\<open>Rook\<close> and \<^verbatim>\<open>Bishop\<close>\<close>

text \<open>
  The bodies of \<^verbatim>\<open>Rook.get_possible_moves\<close> and \<^verbatim>\<open>Bishop.get_possible_moves\<close> are the
  same text except for the list \<^verbatim>\<open>directions\<close>.  \<open>walk\<close> is the inner
  \<^verbatim>\<open>while 0 <= nx < 8 and 0 <= ny < 8\<close> loop with its two \<^verbatim>\<open>break\<close>s; a loop that never
  leaves its cell (\<open>dx = dy = 0\<close> on an empty cell) has the value \<open>None\<close>.
\<close>

partial_function (option) walk ::
  "ChessPiece \<Rightarrow> BoardType \<Rightarrow> int \<Rightarrow> int \<Rightarrow> int \<Rightarrow> int \<Rightarrow> Position list
     \<Rightarrow> (error + Position list) option" where
  "walk self board dx dy nx ny moves =
     (if in_bounds nx ny then
        (case getitem2 board nx ny of
           Inl e \<Rightarrow> Some (Inl e)
         | Inr target \<Rightarrow>
             (case target of
                None \<Rightarrow> walk self board dx dy (nx + dx) (ny + dy) (moves @ [(nx, ny)])
              | Some t \<Rightarrow>
                  if color t \<noteq> color self then Some (Inr (moves @ [(nx, ny)]))
                  else Some (Inr moves)))
      else Some (Inr moves))"

declare walk.simps [code]

text \<open>The outer loop \<^verbatim>\<open>for dx, dy in directions\<close>.\<close>

fun for_directions ::
  "ChessPiece \<Rightarrow> BoardType \<Rightarrow> (int \<times> int) list \<Rightarrow> Position list
     \<Rightarrow> (error + Position list) option" where
  "for_directions self board [] moves = Some (Inr moves)"
| "for_directions self board ((dx, dy) # directions) moves =
     (case position self of (x, y) \<Rightarrow>
        (case walk self board dx dy (x + dx) (y + dy) moves of
           None \<Rightarrow> None
         | Some (Inl e) \<Rightarrow> Some (Inl e)
         | Some (Inr moves') \<Rightarrow> for_directions self board directions moves'))"

definition Rook_directions :: "(int \<times> int) list" where
  "Rook_directions = [(1, 0), (- 1, 0), (0, 1), (0, - 1)]"

definition Bishop_directions :: "(int \<times> int) list" where
  "Bishop_directions = [(- 1, 1), (1, 1), (1, - 1), (- 1, - 1)]"

definition Rook_get_possible_moves ::
  "ChessPiece \<Rightarrow> BoardType \<Rightarrow> (error + Position list) option" where
  "Rook_get_possible_moves self board = for_directions self board Rook_directions []"

definition Bishop_get_possible_moves ::
  "ChessPiece \<Rightarrow> BoardType \<Rightarrow> (error + Position list) option" where
  "Bishop_get_possible_moves self board = for_directions self board Bishop_directions []"

text \<open>
  The common tail of \<^verbatim>\<open>Rook.can_attack\<close> and \<^verbatim>\<open>Bishop.can_attack\<close>:
  \<^verbatim>\<open>if not self.is_path_clear(...): return False\<close>, then \<^verbatim>\<open>target = board[y][x]\<close> and
  \<^verbatim>\<open>return target is not None and target.color != self.color\<close>.
\<close>

definition attack_along ::
  "ChessPiece \<Rightarrow> int \<Rightarrow> int \<Rightarrow> BoardType \<Rightarrow> int \<Rightarrow> int \<Rightarrow> (error + bool) option" where
  "attack_along self x y board dx dy =
     (case is_path_clear self x y board dx dy of
        None \<Rightarrow> None
      | Some (Inl e) \<Rightarrow> Some (Inl e)
      | Some (Inr clear) \<Rightarrow>
          if \<not> clear then Some (Inr False)
          else
            (case getitem2 board x y of
               Inl e \<Rightarrow> Some (Inl e)
             | Inr target \<Rightarrow>
                 (case target of
                    None \<Rightarrow> Some (Inr False)
                  | Some t \<Rightarrow> Some (Inr (color t \<noteq> color self)))))"

definition Rook_can_attack ::
  "ChessPiece \<Rightarrow> int \<Rightarrow> int \<Rightarrow> BoardType \<Rightarrow> (error + bool) option" where
  "Rook_can_attack self x y board =
     (case position self of (px, py) \<Rightarrow>
        if x \<noteq> px \<and> y \<noteq> py then Some (Inr False)
        else
          let dx = (if x = px then 0 else if x > px then 1 else - 1);
              dy = (if y = py then 0 else if y > py then 1 else - 1)
          in attack_along self x y board dx dy)"

definition Bishop_can_attack ::
  "ChessPiece \<Rightarrow> int \<Rightarrow> int \<Rightarrow> BoardType \<Rightarrow> (error + bool) option" where
  "Bishop_can_attack self x y board =
     (case position self of (px, py) \<Rightarrow>
        let dx = x - px; dy = y - py in
        if \<bar>dx\<bar> \<noteq> \<bar>dy\<bar> then Some (Inr False)
        else
          let step_x = (if dx > 0 then 1 else - 1);
              step_y = (if dy > 0 then 1 else - 1)
          in attack_along self x y board step_x step_y)"

subsection \<open>Method dispatch on the class of the piece\<close>

definition get_possible_moves ::
  "ChessPiece \<Rightarrow> BoardType \<Rightarrow> (error + Position list) option" where
  "get_possible_moves self board =
     (case kind self of
        Pawn \<Rightarrow> Some (Pawn_get_possible_moves self board)
      | Rook \<Rightarrow> Rook_get_possible_moves self board
      | Bishop \<Rightarrow> Bishop_get_possible_moves self board)"

definition can_attack :: "ChessPiece \<Rightarrow> int \<Rightarrow> int \<Rightarrow> BoardType \<Rightarrow> (error + bool) option" where
  "can_attack self x y board =
     (case kind self of
        Pawn \<Rightarrow> Some (Pawn_can_attack self x y board)
      | Rook \<Rightarrow> Rook_can_attack self x y board
      | Bishop \<Rightarrow> Bishop_can_attack self x y board)"

section \<open>\<^verbatim>\<open>ChessBoard\<close>\<close>

text \<open>
  The grid holds references to piece objects, and \<^verbatim>\<open>move_piece\<close> assigns to the
  \<^verbatim>\<open>position\<close> attribute of the object it moves, so the objects live in a store of their
  own: \<open>objects st r\<close> is the object behind reference \<open>r\<close>, \<open>board st\<close> the attribute
  \<^verbatim>\<open>self.board\<close>.
\<close>

type_synonym ref = nat

record ChessBoard =
  board :: "ref option list list"
  objects :: "ref \<Rightarrow> ChessPiece"

text \<open>What a piece method sees when it is handed \<^verbatim>\<open>self.board\<close>.\<close>

definition snapshot :: "ChessBoard \<Rightarrow> BoardType" where
  "snapshot st = map (map (map_option (objects st))) (board st)"

text \<open>\<^verbatim>\<open>__init__\<close>: \<^verbatim>\<open>[[None for _ in range(8)] for _ in range(8)]\<close>.\<close>

definition ChessBoard_init :: "(ref \<Rightarrow> ChessPiece) \<Rightarrow> ChessBoard" where
  "ChessBoard_init objs = \<lparr>board = replicate 8 (replicate 8 None), objects = objs\<rparr>"

definition place_piece :: "ChessBoard \<Rightarrow> ref \<Rightarrow> error + ChessBoard" where
  "place_piece st piece =
     (case position (objects st piece) of (x, y) \<Rightarrow>
        (case setitem2 (board st) x y (Some piece) of
           Inl e \<Rightarrow> Inl e
         | Inr b \<Rightarrow> Inr (st\<lparr>board := b\<rparr>)))"

text \<open>
  \<^verbatim>\<open>move_piece\<close> returns nothing; what tells its three outcomes apart is the line it
  prints.  \<open>NoPieceOnSquare\<close> is the fixed message of the \<^verbatim>\<open>if not piece\<close> branch,
  \<open>Moving\<close> the message of the successful branch (it shows the piece, \<^verbatim>\<open>from_pos\<close> and
  \<^verbatim>\<open>to_pos\<close>), \<open>CannotGo\<close> the message of the \<^verbatim>\<open>else\<close> branch (the piece and
  \<^verbatim>\<open>to_pos\<close>).
\<close>

datatype report =
    NoPieceOnSquare
  | Moving ref Position Position
  | CannotGo ref Position

text \<open>
  A piece object is always truthy (the classes define neither \<^verbatim>\<open>__bool__\<close> nor
  \<^verbatim>\<open>__len__\<close>), so \<^verbatim>\<open>not piece\<close> holds exactly for \<^verbatim>\<open>None\<close>.  An \<open>Inl\<close> result is an
  exception.  On an 8 by 8 grid only the first statement, the read of
  \<^verbatim>\<open>self.board[y1][x1]\<close>, and the call of \<^verbatim>\<open>get_possible_moves\<close> can raise, both before
  any assignment, so an exception leaves the state as it was.
\<close>

definition move_piece ::
  "ChessBoard \<Rightarrow> Position \<Rightarrow> Position \<Rightarrow> (error + report \<times> ChessBoard) option" where
  "move_piece st from_pos to_pos =
     (case from_pos of (x1, y1) \<Rightarrow>
      case to_pos of (x2, y2) \<Rightarrow>
        (case getitem2 (board st) x1 y1 of
           Inl e \<Rightarrow> Some (Inl e)
         | Inr cell \<Rightarrow>
             (case cell of
                None \<Rightarrow> Some (Inr (NoPieceOnSquare, st))
              | Some piece \<Rightarrow>
                  (case get_possible_moves (objects st piece) (snapshot st) of
                     None \<Rightarrow> None
                   | Some (Inl e) \<Rightarrow> Some (Inl e)
                   | Some (Inr possible_moves) \<Rightarrow>
                       if to_pos \<in> set possible_moves then
                         (case setitem2 (board st) x2 y2 (Some piece) of
                            Inl e \<Rightarrow> Some (Inl e)
                          | Inr b1 \<Rightarrow>
                              (case setitem2 b1 x1 y1 None of
                                 Inl e \<Rightarrow> Some (Inl e)
                               | Inr b2 \<Rightarrow>
                                   Some (Inr (Moving piece from_pos to_pos,
                                     \<lparr>board = b2,
                                      objects = (objects st)
                                        (piece := (objects st piece)\<lparr>position := (x2, y2)\<rparr>)\<rparr>))))
                       else Some (Inr (CannotGo piece to_pos, st))))))"

section \<open>Vocabulary of the properties\<close>

text \<open>An 8 by 8 grid, as \<^verbatim>\<open>ChessBoard.__init__\<close> builds it.\<close>

definition wf_board :: "'a list list \<Rightarrow> bool" where
  "wf_board b \<longleftrightarrow> length b = 8 \<and> (\<forall>row \<in> set b. length row = 8)"

text \<open>A square of the board: a file and a rank from 0 to 7.\<close>

definition square :: "Position \<Rightarrow> bool" where
  "square s \<longleftrightarrow> 0 \<le> fst s \<and> fst s \<le> 7 \<and> 0 \<le> snd s \<and> snd s \<le> 7"

text \<open>
  A square of the board whose cell is empty, and one whose cell holds a piece of the
  other colour than \<open>self\<close>.  Both are false off the board.
\<close>

definition vacant :: "BoardType \<Rightarrow> Position \<Rightarrow> bool" where
  "vacant b s \<longleftrightarrow> square s \<and> b ! nat (snd s) ! nat (fst s) = None"

definition enemy :: "ChessPiece \<Rightarrow> BoardType \<Rightarrow> Position \<Rightarrow> bool" where
  "enemy self b s \<longleftrightarrow>
     square s
     \<and> (case b ! nat (snd s) ! nat (fst s) of None \<Rightarrow> False | Some t \<Rightarrow> color t \<noteq> color self)"

text \<open>
  What \<^verbatim>\<open>board[y][x]\<close> must give for \<open>(x, y)\<close> to be appended to \<^verbatim>\<open>moves\<close>: no piece,
  or a piece of the other colour.
\<close>

definition lands :: "ChessPiece \<Rightarrow> BoardType \<Rightarrow> Position \<Rightarrow> bool" where
  "lands self b s \<longleftrightarrow>
     (case getitem2 b (fst s) (snd s) of
        Inl e \<Rightarrow> False
      | Inr cell \<Rightarrow> (case cell of None \<Rightarrow> True | Some t \<Rightarrow> color t \<noteq> color self))"

text \<open>A step of one square along a rank, a file or a diagonal.\<close>

definition unit_step :: "int \<Rightarrow> int \<Rightarrow> bool" where
  "unit_step dx dy \<longleftrightarrow> dx \<in> {- 1, 0, 1} \<and> dy \<in> {- 1, 0, 1} \<and> (dx, dy) \<noteq> (0, 0)"

text \<open>The list \<^verbatim>\<open>directions\<close> of the piece's class (the Pawn has none).\<close>

definition directions_of :: "PieceKind \<Rightarrow> (int \<times> int) list" where
  "directions_of k = (case k of Rook \<Rightarrow> Rook_directions | Bishop \<Rightarrow> Bishop_directions | Pawn \<Rightarrow> [])"

text \<open>The square \<open>k\<close> steps from the piece in direction \<open>d\<close>.\<close>

definition square_at :: "ChessPiece \<Rightarrow> int \<times> int \<Rightarrow> nat \<Rightarrow> Position" where
  "square_at self d k =
     (fst (position self) + int k * fst d, snd (position self) + int k * snd d)"

text \<open>
  The squares a walk started on \<open>(nx, ny)\<close> appends: those reached over empty squares of
  the board that are themselves empty or hold a piece of the other colour.
\<close>

definition hits :: "ChessPiece \<Rightarrow> BoardType \<Rightarrow> int \<Rightarrow> int \<Rightarrow> int \<Rightarrow> int \<Rightarrow> Position \<Rightarrow> bool" where
  "hits self b dx dy nx ny s \<longleftrightarrow>
     (\<exists>k::nat. s = (nx + int k * dx, ny + int k * dy)
        \<and> (\<forall>j<k. vacant b (nx + int j * dx, ny + int j * dy))
        \<and> (vacant b s \<or> enemy self b s))"

text \<open>A bound on the iterations a walk has left: the distance to the edge it heads for.\<close>

definition steps_left :: "int \<Rightarrow> int \<Rightarrow> int \<Rightarrow> int \<Rightarrow> nat" where
  "steps_left dx dy nx ny =
     (if in_bounds nx ny then
        nat (if dx = 1 then 8 - nx else if dx = - 1 then nx + 1
             else if dy = 1 then 8 - ny else ny + 1)
      else 0)"

text \<open>
  What the specification asks of \<^verbatim>\<open>can_attack\<close> for a Rook or Bishop: the target lies
  \<open>k \<ge> 1\<close> steps along one of the piece's directions, the squares before it are empty,
  and the target's cell holds a piece of the other colour.
\<close>

definition attackable :: "ChessPiece \<Rightarrow> BoardType \<Rightarrow> Position \<Rightarrow> bool" where
  "attackable self b s \<longleftrightarrow>
     (\<exists>d \<in> set (directions_of (kind self)). \<exists>k\<ge>1. s = square_at self d k
        \<and> (\<forall>j. 1 \<le> j \<and> j < k \<longrightarrow> vacant b (square_at self d j))
        \<and> enemy self b s)"

text \<open>The content of the cell of square \<open>s\<close>, for a square on the board.\<close>

definition cell :: "ChessBoard \<Rightarrow> Position \<Rightarrow> ref option" where
  "cell st s = board st ! nat (snd s) ! nat (fst s)"

text \<open>A grid with the cell of one square replaced.\<close>

definition put :: "'a list list \<Rightarrow> Position \<Rightarrow> 'a \<Rightarrow> 'a list list" where
  "put b s v = b[nat (snd s) := (b ! nat (snd s))[nat (fst s) := v]]"

text \<open>
  Every piece stored in the grid carries the square of its cell in its \<^verbatim>\<open>position\<close>
  attribute.
\<close>

definition consistent :: "ChessBoard \<Rightarrow> bool" where
  "consistent st \<longleftrightarrow>
     (\<forall>s r. in_bounds (fst s) (snd s) \<and> cell st s = Some r \<longrightarrow> position (objects st r) = s)"

text \<open>The piece object \<open>r\<close> is stored in some cell of the grid.\<close>

definition on_board :: "ChessBoard \<Rightarrow> ref \<Rightarrow> bool" where
  "on_board st r \<longleftrightarrow> (\<exists>s. in_bounds (fst s) (snd s) \<and> cell st s = Some r)"


text \<open>
  The states reached when \<^verbatim>\<open>place_piece\<close> is only called with a piece whose position is
  a square of the board; \<^verbatim>\<open>place_piece\<close> itself does not look at the position.
\<close>

inductive reachable_on_squares :: "ChessBoard \<Rightarrow> bool" where
  init: "reachable_on_squares (ChessBoard_init objs)"
| place: "reachable_on_squares st \<Longrightarrow> square (position (objects st r))
     \<Longrightarrow> place_piece st r = Inr st' \<Longrightarrow> reachable_on_squares st'"
| move: "reachable_on_squares st
     \<Longrightarrow> move_piece st from_pos to_pos = Some (Inr (rep, st')) \<Longrightarrow> reachable_on_squares st'"

section \<open>Concrete boards and pieces\<close>

definition empty_board :: BoardType where
  "empty_board = replicate 8 (replicate 8 None)"

text \<open>
  The pieces of the script at the end of the module: \<^verbatim>\<open>p1 = Pawn(Color.WHITE, (4, 1))\<close>,
  \<^verbatim>\<open>r1 = Rook(Color.BLACK, (0, 0))\<close>, \<^verbatim>\<open>b1 = Bishop(Color.WHITE, (2, 0))\<close> and
  \<^verbatim>\<open>r2 = Rook(Color.BLACK, (5, 2))\<close>, and the board it places them on.
\<close>

definition white_pawn_e2 :: ChessPiece where
  "white_pawn_e2 = \<lparr>kind = Pawn, color = WHITE, position = (4, 1)\<rparr>"

definition black_rook_a1 :: ChessPiece where
  "black_rook_a1 = \<lparr>kind = Rook, color = BLACK, position = (0, 0)\<rparr>"

definition white_bishop_c1 :: ChessPiece where
  "white_bishop_c1 = \<lparr>kind = Bishop, color = WHITE, position = (2, 0)\<rparr>"

definition black_rook_f3 :: ChessPiece where
  "black_rook_f3 = \<lparr>kind = Rook, color = BLACK, position = (5, 2)\<rparr>"

definition script_board :: BoardType where
  "script_board =
     empty_board[0 := (empty_board ! 0)[0 := Some black_rook_a1, 2 := Some white_bishop_c1],
                 1 := (empty_board ! 1)[4 := Some white_pawn_e2],
                 2 := (empty_board ! 2)[5 := Some black_rook_f3]]"

text \<open>A White rook alone on (0, 0).\<close>

definition white_rook_a1 :: ChessPiece where
  "white_rook_a1 = \<lparr>kind = Rook, color = WHITE, position = (0, 0)\<rparr>"

definition board_rook_a1 :: BoardType where
  "board_rook_a1 = empty_board[0 := (empty_board ! 0)[0 := Some white_rook_a1]]"

text \<open>The White bishop on (2, 0) and a Black pawn on (7, 3).\<close>

definition black_pawn_h4 :: ChessPiece where
  "black_pawn_h4 = \<lparr>kind = Pawn, color = BLACK, position = (7, 3)\<rparr>"

definition board_bishop_pawn :: BoardType where
  "board_bishop_pawn =
     empty_board[0 := (empty_board ! 0)[2 := Some white_bishop_c1],
                 3 := (empty_board ! 3)[7 := Some black_pawn_h4]]"

text \<open>
  Two rook objects that both carry the position (0, 0), and the board on which the first
  of them has been placed.
\<close>

definition two_rooks :: "ref \<Rightarrow> ChessPiece" where
  "two_rooks r =
     (if r = 0 then \<lparr>kind = Rook, color = WHITE, position = (0, 0)\<rparr>
      else \<lparr>kind = Rook, color = BLACK, position = (0, 0)\<rparr>)"

definition occupied_a1 :: ChessBoard where
  "occupied_a1 =
     \<lparr>board = (replicate 8 (replicate 8 None))[0 := (replicate 8 None)[0 := Some 0]],
      objects = two_rooks\<rparr>"

text \<open>A board with a White rook on (0, 0) and a Black rook on (0, 3).\<close>

definition capture_objs :: "ref \<Rightarrow> ChessPiece" where
  "capture_objs r =
     (if r = 0 then \<lparr>kind = Rook, color = WHITE, position = (0, 0)\<rparr>
      else \<lparr>kind = Rook, color = BLACK, position = (0, 3)\<rparr>)"

definition capture_board :: ChessBoard where
  "capture_board =
     \<lparr>board = (replicate 8 (replicate 8 None))
                 [0 := (replicate 8 None)[0 := Some 0], 3 := (replicate 8 None)[0 := Some 1]],
      objects = capture_objs\<rparr>"



section \<open>Indexing on a well-formed board\<close>

lemma square_iff: "square s \<longleftrightarrow> in_bounds (fst s) (snd s)"
  by (auto simp: square_def in_bounds_def)

lemma vacant_iff:
  "vacant b s \<longleftrightarrow> in_bounds (fst s) (snd s) \<and> b ! nat (snd s) ! nat (fst s) = None"
  by (simp add: vacant_def square_iff)

lemma enemy_iff:
  "enemy self b s \<longleftrightarrow>
     in_bounds (fst s) (snd s)
     \<and> (case b ! nat (snd s) ! nat (fst s) of None \<Rightarrow> False | Some t \<Rightarrow> color t \<noteq> color self)"
  by (simp add: enemy_def square_iff)


lemma py_index_in_range: "0 \<le> i \<Longrightarrow> i < int (length xs) \<Longrightarrow> py_index xs i = Some (nat i)"
  by (simp add: py_index_def)

lemma wf_board_row: "wf_board b \<Longrightarrow> in_bounds x y \<Longrightarrow> length (b ! nat y) = 8"
proof -
  assume wf: "wf_board b" and inb: "in_bounds x y"
  then have "nat y < length b" unfolding wf_board_def in_bounds_def by linarith
  then have "b ! nat y \<in> set b" by (rule nth_mem)
  with wf show ?thesis by (simp add: wf_board_def)
qed

lemma wf_board_length: "wf_board b \<Longrightarrow> length b = 8"
  by (simp add: wf_board_def)

lemma getitem2_in_bounds:
  "wf_board b \<Longrightarrow> in_bounds x y \<Longrightarrow> getitem2 b x y = Inr (b ! nat y ! nat x)"
proof -
  assume wf: "wf_board b" and inb: "in_bounds x y"
  have "py_index b y = Some (nat y)"
    using inb wf_board_length[OF wf] by (simp add: py_index_in_range in_bounds_def)
  moreover have "py_index (b ! nat y) x = Some (nat x)"
    using inb wf_board_row[OF wf inb] by (simp add: py_index_in_range in_bounds_def)
  ultimately show ?thesis by (simp add: getitem2_def)
qed

lemma setitem2_in_bounds:
  "wf_board b \<Longrightarrow> in_bounds x y \<Longrightarrow>
     setitem2 b x y v = Inr (b[nat y := (b ! nat y)[nat x := v]])"
proof -
  assume wf: "wf_board b" and inb: "in_bounds x y"
  have "py_index b y = Some (nat y)"
    using inb wf_board_length[OF wf] by (simp add: py_index_in_range in_bounds_def)
  moreover have "py_index (b ! nat y) x = Some (nat x)"
    using inb wf_board_row[OF wf inb] by (simp add: py_index_in_range in_bounds_def)
  ultimately show ?thesis by (simp add: setitem2_def)
qed

section \<open>The sliding walk of Rook and Bishop\<close>

lemma hits_step:
  "hits self b dx dy nx ny s \<longleftrightarrow>
     (s = (nx, ny) \<and> (vacant b (nx, ny) \<or> enemy self b (nx, ny)))
   \<or> (vacant b (nx, ny) \<and> hits self b dx dy (nx + dx) (ny + dy) s)"
  (is "?L \<longleftrightarrow> ?A \<or> ?B")
proof
  assume ?L
  then obtain k :: nat where k: "s = (nx + int k * dx, ny + int k * dy)"
    and free: "\<forall>j<k. vacant b (nx + int j * dx, ny + int j * dy)"
    and land: "vacant b s \<or> enemy self b s"
    unfolding hits_def by blast
  show "?A \<or> ?B"
  proof (cases k)
    case 0
    with k land show ?thesis by simp
  next
    case (Suc k')
    from free Suc have v0: "vacant b (nx, ny)" by force
    have "\<forall>j<k'. vacant b (nx + dx + int j * dx, ny + dy + int j * dy)"
    proof (intro allI impI)
      fix j assume "j < k'"
      then have "Suc j < k" using Suc by simp
      with free have "vacant b (nx + int (Suc j) * dx, ny + int (Suc j) * dy)" by blast
      then show "vacant b (nx + dx + int j * dx, ny + dy + int j * dy)"
        by (simp add: algebra_simps)
    qed
    moreover have "s = (nx + dx + int k' * dx, ny + dy + int k' * dy)"
      using k Suc by (simp add: algebra_simps)
    ultimately have "hits self b dx dy (nx + dx) (ny + dy) s"
      unfolding hits_def using land by blast
    with v0 show ?thesis by blast
  qed
next
  assume "?A \<or> ?B"
  then show ?L
  proof
    assume ?A
    then show ?L unfolding hits_def by (intro exI[of _ 0]) simp
  next
    assume ?B
    then have v0: "vacant b (nx, ny)" and h: "hits self b dx dy (nx + dx) (ny + dy) s" by blast+
    from h obtain k :: nat where k: "s = (nx + dx + int k * dx, ny + dy + int k * dy)"
      and free: "\<forall>j<k. vacant b (nx + dx + int j * dx, ny + dy + int j * dy)"
      and land: "vacant b s \<or> enemy self b s"
      unfolding hits_def by blast
    have "\<forall>j<Suc k. vacant b (nx + int j * dx, ny + int j * dy)"
    proof (intro allI impI)
      fix j assume j: "j < Suc k"
      show "vacant b (nx + int j * dx, ny + int j * dy)"
      proof (cases j)
        case 0
        with v0 show ?thesis by simp
      next
        case (Suc j')
        with j have "j' < k" by simp
        with free have "vacant b (nx + dx + int j' * dx, ny + dy + int j' * dy)" by blast
        then show ?thesis using Suc by (simp add: algebra_simps)
      qed
    qed
    moreover have "s = (nx + int (Suc k) * dx, ny + int (Suc k) * dy)"
      using k by (simp add: algebra_simps)
    ultimately show ?L unfolding hits_def using land by blast
  qed
qed

lemma steps_left_decreases:
  "unit_step dx dy \<Longrightarrow> in_bounds nx ny \<Longrightarrow>
     steps_left dx dy (nx + dx) (ny + dy) < steps_left dx dy nx ny"
  unfolding steps_left_def unit_step_def in_bounds_def by auto

lemma walk_char:
  assumes wf: "wf_board b" and unit: "unit_step dx dy"
  shows "\<exists>ms. walk self b dx dy nx ny acc = Some (Inr (acc @ ms))
           \<and> (\<forall>s. s \<in> set ms \<longleftrightarrow> hits self b dx dy nx ny s)"
proof (induction "steps_left dx dy nx ny" arbitrary: nx ny acc rule: less_induct)
  case less
  show ?case
  proof (cases "in_bounds nx ny")
    case False
    then have "walk self b dx dy nx ny acc = Some (Inr (acc @ []))"
      by (subst walk.simps) simp
    moreover have "\<not> hits self b dx dy nx ny s" for s
      using False by (subst hits_step) (simp add: vacant_iff enemy_iff)
    ultimately show ?thesis by (intro exI[of _ "[]"]) simp
  next
    case True
    note inb = this
    then have gi: "getitem2 b nx ny = Inr (b ! nat ny ! nat nx)"
      using wf by (rule getitem2_in_bounds[rotated])
    show ?thesis
    proof (cases "b ! nat ny ! nat nx")
      case None
      then have vac: "vacant b (nx, ny)" using inb by (simp add: vacant_iff)
      from less.hyps[OF steps_left_decreases[OF unit inb], of "acc @ [(nx, ny)]"]
      obtain ms where w: "walk self b dx dy (nx + dx) (ny + dy) (acc @ [(nx, ny)])
                            = Some (Inr ((acc @ [(nx, ny)]) @ ms))"
        and m: "\<forall>s. s \<in> set ms \<longleftrightarrow> hits self b dx dy (nx + dx) (ny + dy) s"
        by blast
      have "walk self b dx dy nx ny acc = Some (Inr (acc @ ((nx, ny) # ms)))"
        by (subst walk.simps) (simp add: inb gi None w)
      moreover have "\<forall>s. s \<in> set ((nx, ny) # ms) \<longleftrightarrow> hits self b dx dy nx ny s"
        using m vac by (subst hits_step) auto
      ultimately show ?thesis by blast
    next
      case (Some t)
      have nv: "\<not> vacant b (nx, ny)" using Some by (simp add: vacant_iff)
      show ?thesis
      proof (cases "color t \<noteq> color self")
        case True
        then have en: "enemy self b (nx, ny)" using Some inb by (simp add: enemy_iff)
        have "walk self b dx dy nx ny acc = Some (Inr (acc @ [(nx, ny)]))"
          by (subst walk.simps) (simp add: inb gi Some True)
        moreover have "\<forall>s. s \<in> set [(nx, ny)] \<longleftrightarrow> hits self b dx dy nx ny s"
          using nv en by (subst hits_step) auto
        ultimately show ?thesis by blast
      next
        case False
        then have en: "\<not> enemy self b (nx, ny)" using Some by (simp add: enemy_iff)
        have "walk self b dx dy nx ny acc = Some (Inr (acc @ []))"
          using False by (subst walk.simps) (simp add: inb gi Some)
        moreover have "\<forall>s. s \<in> set [] \<longleftrightarrow> hits self b dx dy nx ny s"
          using nv en by (subst hits_step) auto
        ultimately show ?thesis by blast
      qed
    qed
  qed
qed

lemma for_directions_char:
  assumes wf: "wf_board b" and units: "\<forall>(dx, dy) \<in> set ds. unit_step dx dy"
  shows "\<exists>ms. for_directions self b ds acc = Some (Inr (acc @ ms))
           \<and> (\<forall>s. s \<in> set ms \<longleftrightarrow>
                 (\<exists>(dx, dy) \<in> set ds.
                    hits self b dx dy (fst (position self) + dx) (snd (position self) + dy) s))"
  using units
proof (induction ds arbitrary: acc)
  case Nil
  show ?case by (intro exI[of _ "[]"]) simp
next
  case (Cons d ds)
  obtain dx dy where d: "d = (dx, dy)" by (cases d)
  obtain px py where p: "position self = (px, py)" by (cases "position self")
  from Cons.prems d have u: "unit_step dx dy" by simp
  from walk_char[OF wf u, of self "px + dx" "py + dy" acc]
  obtain m1 where w: "walk self b dx dy (px + dx) (py + dy) acc = Some (Inr (acc @ m1))"
    and h1: "\<forall>s. s \<in> set m1 \<longleftrightarrow> hits self b dx dy (px + dx) (py + dy) s"
    by blast
  from Cons.prems have "\<forall>(dx, dy) \<in> set ds. unit_step dx dy" by simp
  from Cons.IH[OF this, of "acc @ m1"]
  obtain m2 where f: "for_directions self b ds (acc @ m1) = Some (Inr ((acc @ m1) @ m2))"
    and h2: "\<forall>s. s \<in> set m2 \<longleftrightarrow>
                 (\<exists>(dx, dy) \<in> set ds.
                    hits self b dx dy (fst (position self) + dx) (snd (position self) + dy) s)"
    by blast
  have "for_directions self b (d # ds) acc = Some (Inr (acc @ (m1 @ m2)))"
    by (simp add: d p w f)
  moreover have "\<forall>s. s \<in> set (m1 @ m2) \<longleftrightarrow>
                 (\<exists>(dx, dy) \<in> set (d # ds).
                    hits self b dx dy (fst (position self) + dx) (snd (position self) + dy) s)"
    using h1 h2 by (simp add: d p)
  ultimately show ?case by blast
qed

lemma Rook_directions_unit: "\<forall>(dx, dy) \<in> set Rook_directions. unit_step dx dy"
  by (simp add: Rook_directions_def unit_step_def)

lemma Bishop_directions_unit: "\<forall>(dx, dy) \<in> set Bishop_directions. unit_step dx dy"
  by (simp add: Bishop_directions_def unit_step_def)

lemma slider_moves_char:
  assumes wf: "wf_board b" and k: "kind self = Rook \<or> kind self = Bishop"
  shows "\<exists>ms. get_possible_moves self b = Some (Inr ms)
           \<and> (\<forall>s. s \<in> set ms \<longleftrightarrow>
                 (\<exists>(dx, dy) \<in> set (directions_of (kind self)).
                    hits self b dx dy (fst (position self) + dx) (snd (position self) + dy) s))"
  using k
proof
  assume r: "kind self = Rook"
  from for_directions_char[OF wf Rook_directions_unit, of self "[]"]
  show ?thesis
    by (simp add: get_possible_moves_def r Rook_get_possible_moves_def directions_of_def)
next
  assume r: "kind self = Bishop"
  from for_directions_char[OF wf Bishop_directions_unit, of self "[]"]
  show ?thesis
    by (simp add: get_possible_moves_def r Bishop_get_possible_moves_def directions_of_def)
qed

lemma hits_landing:
  "hits self b dx dy nx ny s \<Longrightarrow> vacant b s \<or> enemy self b s"
  unfolding hits_def by blast

section \<open>The pawn\<close>

lemma pawn_direction_eq: "pawn_direction self = - 1"
  by (simp add: pawn_direction_def color_eq_str_def)

lemma pawn_moves_char:
  assumes wf: "wf_board b" and pos: "position self = (x, y)" and inb: "in_bounds x y"
  shows "\<exists>ms. Pawn_get_possible_moves self b = Inr ms
           \<and> (\<forall>s. s \<in> set ms \<longleftrightarrow>
                 (s = (x, y - 1) \<and> vacant b (x, y - 1))
               \<or> (s = (x - 1, y - 1) \<and> enemy self b (x - 1, y - 1))
               \<or> (s = (x + 1, y - 1) \<and> enemy self b (x + 1, y - 1)))"
proof -
  have fw: "pawn_forward self b = Inr (if vacant b (x, y - 1) then [(x, y - 1)] else [])"
  proof (cases "0 \<le> y - 1 \<and> y - 1 < 8")
    case True
    then have "in_bounds x (y - 1)" using inb by (simp add: in_bounds_def)
    from getitem2_in_bounds[OF wf this] this True show ?thesis
      by (simp add: pawn_forward_def pos pawn_direction_eq vacant_iff)
  next
    case False
    then show ?thesis
      by (auto simp add: pawn_forward_def pos pawn_direction_eq vacant_iff in_bounds_def)
  qed
  have step: "pawn_diagonals self b (dx # dxs) acc
      = pawn_diagonals self b dxs (acc @ (if enemy self b (x + dx, y - 1) then [(x + dx, y - 1)] else []))"
    for dx dxs acc
  proof (cases "in_bounds (x + dx) (y - 1)")
    case True
    from getitem2_in_bounds[OF wf this] this show ?thesis
      by (simp add: pos pawn_direction_eq enemy_iff split: option.splits)
  next
    case False
    then show ?thesis by (simp add: pos pawn_direction_eq enemy_iff)
  qed
  have "Pawn_get_possible_moves self b =
          Inr ((if vacant b (x, y - 1) then [(x, y - 1)] else [])
               @ (if enemy self b (x - 1, y - 1) then [(x - 1, y - 1)] else [])
               @ (if enemy self b (x + 1, y - 1) then [(x + 1, y - 1)] else []))"
    unfolding Pawn_get_possible_moves_def fw by (simp add: step del: pawn_diagonals.simps(2))
  then show ?thesis by auto
qed

text \<open>
  C1 (the code departs from it).  The claim: a White pawn steps towards increasing rank,
  so that the White pawn at (4, 1) on an empty board has the single move (4, 2).  In the
  code the test \<^verbatim>\<open>self.color == 'white'\<close> compares an enum member with a string and is
  never true, so every pawn gets direction -1 and the moves of \<open>pawn_moves_char\<close>,
  which are those the claim gives a Black pawn: the White pawn at (4, 1) on the empty
  board is given the single move (4, 0).
\<close>

theorem white_pawn_e2_moves_backwards:
  "get_possible_moves white_pawn_e2 empty_board = Some (Inr [(4, 0)])"
  by code_simp

section \<open>Rook and Bishop, direction by direction\<close>

lemma square_at_Suc:
  "square_at self (dx, dy) (Suc k)
     = (fst (position self) + dx + int k * dx, snd (position self) + dy + int k * dy)"
  by (simp add: square_at_def algebra_simps)

lemma hits_from_piece:
  "hits self b dx dy (fst (position self) + dx) (snd (position self) + dy) s \<longleftrightarrow>
     (\<exists>k\<ge>1. s = square_at self (dx, dy) k
        \<and> (\<forall>j. 1 \<le> j \<and> j < k \<longrightarrow> vacant b (square_at self (dx, dy) j))
        \<and> (vacant b s \<or> enemy self b s))"
  (is "?L \<longleftrightarrow> ?R")
proof
  assume ?L
  then obtain k :: nat where
    k: "s = (fst (position self) + dx + int k * dx, snd (position self) + dy + int k * dy)"
    and free: "\<forall>j<k. vacant b (fst (position self) + dx + int j * dx,
                                  snd (position self) + dy + int j * dy)"
    and land: "vacant b s \<or> enemy self b s"
    unfolding hits_def by blast
  have "\<forall>j. 1 \<le> j \<and> j < Suc k \<longrightarrow> vacant b (square_at self (dx, dy) j)"
  proof (intro allI impI)
    fix j assume j: "1 \<le> j \<and> j < Suc k"
    then obtain j' where j': "j = Suc j'" "j' < k" by (cases j) auto
    with free show "vacant b (square_at self (dx, dy) j)" by (simp add: square_at_Suc)
  qed
  moreover have "s = square_at self (dx, dy) (Suc k)" using k by (simp add: square_at_Suc)
  ultimately show ?R using land by (intro exI[of _ "Suc k"]) simp
next
  assume ?R
  then obtain k where k1: "1 \<le> k" and k: "s = square_at self (dx, dy) k"
    and free: "\<forall>j. 1 \<le> j \<and> j < k \<longrightarrow> vacant b (square_at self (dx, dy) j)"
    and land: "vacant b s \<or> enemy self b s"
    by blast
  from k1 obtain k' where k': "k = Suc k'" by (cases k) auto
  have "\<forall>j<k'. vacant b (fst (position self) + dx + int j * dx,
                          snd (position self) + dy + int j * dy)"
  proof (intro allI impI)
    fix j assume "j < k'"
    then have "1 \<le> Suc j \<and> Suc j < k" using k' by simp
    with free have "vacant b (square_at self (dx, dy) (Suc j))" by blast
    then show "vacant b (fst (position self) + dx + int j * dx,
                         snd (position self) + dy + int j * dy)"
      by (simp add: square_at_Suc)
  qed
  moreover have "s = (fst (position self) + dx + int k' * dx,
                      snd (position self) + dy + int k' * dy)"
    using k k' by (simp add: square_at_Suc)
  ultimately show ?L unfolding hits_def using land by blast
qed

lemma ray_unique:
  assumes "d \<in> set (directions_of K)" "d' \<in> set (directions_of K)" "1 \<le> k" "1 \<le> k'"
    and "square_at self d k = square_at self d' k'"
  shows "d = d' \<and> k = k'"
  using assms
  by (cases K) (auto simp: directions_of_def Rook_directions_def Bishop_directions_def square_at_def)

lemma slider_moves_directions_of:
  assumes wf: "wf_board b" and sl: "kind self = Rook \<or> kind self = Bishop"
  shows "\<exists>ms. get_possible_moves self b = Some (Inr ms)
           \<and> (\<forall>s \<in> set ms. \<exists>d \<in> set (directions_of (kind self)). \<exists>k\<ge>1. s = square_at self d k)
           \<and> (\<forall>d \<in> set (directions_of (kind self)). \<forall>k\<ge>1.
                 square_at self d k \<in> set ms \<longleftrightarrow>
                   (\<forall>j. 1 \<le> j \<and> j < k \<longrightarrow> vacant b (square_at self d j))
                   \<and> (vacant b (square_at self d k) \<or> enemy self b (square_at self d k)))"
proof -
  from slider_moves_char[OF wf sl] obtain ms where
    g: "get_possible_moves self b = Some (Inr ms)"
    and m: "\<And>s. s \<in> set ms \<longleftrightarrow>
              (\<exists>(dx, dy) \<in> set (directions_of (kind self)).
                 hits self b dx dy (fst (position self) + dx) (snd (position self) + dy) s)"
    by blast
  have m': "s \<in> set ms \<longleftrightarrow>
              (\<exists>d \<in> set (directions_of (kind self)). \<exists>k\<ge>1. s = square_at self d k
                 \<and> (\<forall>j. 1 \<le> j \<and> j < k \<longrightarrow> vacant b (square_at self d j))
                 \<and> (vacant b s \<or> enemy self b s))" for s
    unfolding m by (auto simp: hits_from_piece)
  have a: "\<forall>s \<in> set ms. \<exists>d \<in> set (directions_of (kind self)). \<exists>k\<ge>1. s = square_at self d k"
    using m' by blast
  have c: "square_at self d k \<in> set ms \<longleftrightarrow>
             (\<forall>j. 1 \<le> j \<and> j < k \<longrightarrow> vacant b (square_at self d j))
             \<and> (vacant b (square_at self d k) \<or> enemy self b (square_at self d k))"
    if d: "d \<in> set (directions_of (kind self))" and k: "1 \<le> k" for d k
  proof
    assume "square_at self d k \<in> set ms"
    then obtain d' k' where d': "d' \<in> set (directions_of (kind self))" and k': "1 \<le> k'"
      and eq: "square_at self d k = square_at self d' k'"
      and free: "\<forall>j. 1 \<le> j \<and> j < k' \<longrightarrow> vacant b (square_at self d' j)"
      and land: "vacant b (square_at self d k) \<or> enemy self b (square_at self d k)"
      unfolding m' by blast
    from ray_unique[OF d d' k k' eq] free land
    show "(\<forall>j. 1 \<le> j \<and> j < k \<longrightarrow> vacant b (square_at self d j))
             \<and> (vacant b (square_at self d k) \<or> enemy self b (square_at self d k))"
      by simp
  next
    assume "(\<forall>j. 1 \<le> j \<and> j < k \<longrightarrow> vacant b (square_at self d j))
             \<and> (vacant b (square_at self d k) \<or> enemy self b (square_at self d k))"
    then show "square_at self d k \<in> set ms" unfolding m' using d k by blast
  qed
  from g a c show ?thesis by blast
qed

text \<open>
  C5.  On an 8 by 8 board a Rook, with the four orthogonal directions (1, 0), (-1, 0),
  (0, 1), (0, -1), or a Bishop, with the four diagonal directions (-1, 1), (1, 1),
  (1, -1), (-1, -1), gets a list of moves; every move lies \<open>k \<ge> 1\<close> steps along one of
  these directions; and the square \<open>k\<close> steps along one of them is a move exactly when
  all squares before it in that direction are squares of the board (files and ranks 0 to
  7) and empty and the square itself is a square of the board and either empty or
  occupied by a piece of the other colour.  So each empty square up to the first
  occupied one is a move, the first occupied square is a move iff its occupant has the
  other colour, and nothing behind an occupied square is.
\<close>

theorem sliding_moves_per_direction:
  assumes wf: "wf_board b"
    and D: "kind self = Rook \<and> D = {(1, 0), (- 1, 0), (0, 1), (0, - 1)}
          \<or> kind self = Bishop \<and> D = {(- 1, 1), (1, 1), (1, - 1), (- 1, - 1)}"
  shows "\<exists>ms. get_possible_moves self b = Some (Inr ms)
           \<and> (\<forall>s \<in> set ms. \<exists>d \<in> D. \<exists>k\<ge>1. s = square_at self d k)
           \<and> (\<forall>d \<in> D. \<forall>k\<ge>1.
                 square_at self d k \<in> set ms \<longleftrightarrow>
                   (\<forall>j. 1 \<le> j \<and> j < k \<longrightarrow> vacant b (square_at self d j))
                   \<and> (vacant b (square_at self d k) \<or> enemy self b (square_at self d k)))"
proof -
  from D have sl: "kind self = Rook \<or> kind self = Bishop" by blast
  from D have "D = set (directions_of (kind self))"
    by (auto simp: directions_of_def Rook_directions_def Bishop_directions_def)
  with slider_moves_directions_of[OF wf sl] show ?thesis by simp
qed

theorem sliding_moves_per_direction_witness:
  "wf_board script_board \<and> kind black_rook_a1 = Rook \<and> kind white_bishop_c1 = Bishop
   \<and> (\<exists>ms. get_possible_moves black_rook_a1 script_board = Some (Inr ms)
          \<and> (1, 0) \<in> set ms \<and> (2, 0) \<in> set ms \<and> (3, 0) \<notin> set ms \<and> (0, 1) \<in> set ms)
   \<and> (\<exists>ms. get_possible_moves white_bishop_c1 script_board = Some (Inr ms)
          \<and> (3, 1) \<in> set ms \<and> (1, 1) \<in> set ms)"
proof -
  have wf: "wf_board script_board" by code_simp
  have kr: "kind black_rook_a1 = Rook" by (simp add: black_rook_a1_def)
  have kb: "kind white_bishop_c1 = Bishop" by (simp add: white_bishop_c1_def)
  have rook: "\<exists>ms. get_possible_moves black_rook_a1 script_board = Some (Inr ms)
          \<and> (1, 0) \<in> set ms \<and> (2, 0) \<in> set ms \<and> (3, 0) \<notin> set ms \<and> (0, 1) \<in> set ms"
  proof -
    from sliding_moves_per_direction[OF wf, of black_rook_a1
        "{(1, 0), (- 1, 0), (0, 1), (0, - 1)}"] kr
    obtain ms where
      g: "get_possible_moves black_rook_a1 script_board = Some (Inr ms)"
      and c: "\<forall>d \<in> {(1, 0), (- 1, 0), (0, 1), (0, - 1)}. \<forall>k\<ge>1.
                square_at black_rook_a1 d k \<in> set ms \<longleftrightarrow>
                  (\<forall>j. 1 \<le> j \<and> j < k \<longrightarrow> vacant script_board (square_at black_rook_a1 d j))
                  \<and> (vacant script_board (square_at black_rook_a1 d k)
                       \<or> enemy black_rook_a1 script_board (square_at black_rook_a1 d k))"
      by blast
    have c': "square_at black_rook_a1 d k \<in> set ms \<longleftrightarrow>
                  (\<forall>j. 1 \<le> j \<and> j < k \<longrightarrow> vacant script_board (square_at black_rook_a1 d j))
                  \<and> (vacant script_board (square_at black_rook_a1 d k)
                       \<or> enemy black_rook_a1 script_board (square_at black_rook_a1 d k))"
      if "d = (1, 0) \<or> d = (0, 1)" "1 \<le> k" for d k
      using c that by blast
    have v1: "vacant script_board (square_at black_rook_a1 (1, 0) 1)" by code_simp
    have e2: "enemy black_rook_a1 script_board (square_at black_rook_a1 (1, 0) 2)" by code_simp
    have n2: "\<not> vacant script_board (square_at black_rook_a1 (1, 0) 2)" by code_simp
    have u1: "vacant script_board (square_at black_rook_a1 (0, 1) 1)" by code_simp
    have s1: "square_at black_rook_a1 (1, 0) 1 = (1, 0)" by code_simp
    have s2: "square_at black_rook_a1 (1, 0) 2 = (2, 0)" by code_simp
    have s3: "square_at black_rook_a1 (1, 0) 3 = (3, 0)" by code_simp
    have t1: "square_at black_rook_a1 (0, 1) 1 = (0, 1)" by code_simp
    have "(1, 0) \<in> set ms" using c'[of "(1, 0)" 1] v1 s1 by simp
    moreover have "(0, 1) \<in> set ms" using c'[of "(0, 1)" 1] u1 t1 by simp
    moreover have "(2, 0) \<in> set ms"
    proof -
      have "\<forall>j. 1 \<le> j \<and> j < 2 \<longrightarrow> vacant script_board (square_at black_rook_a1 (1, 0) j)"
      proof (intro allI impI)
        fix j :: nat assume "1 \<le> j \<and> j < 2"
        then have "j = 1" by simp
        then show "vacant script_board (square_at black_rook_a1 (1, 0) j)" using v1 by simp
      qed
      with c'[of "(1, 0)" 2] e2 s2 show ?thesis by simp
    qed
    moreover have "(3, 0) \<notin> set ms"
    proof -
      have "\<not> (\<forall>j. 1 \<le> j \<and> j < 3 \<longrightarrow> vacant script_board (square_at black_rook_a1 (1, 0) j))"
        using n2 by (auto intro!: exI[of _ 2])
      with c'[of "(1, 0)" 3] s3 show ?thesis by simp
    qed
    ultimately show ?thesis using g by blast
  qed
  have bishop: "\<exists>ms. get_possible_moves white_bishop_c1 script_board = Some (Inr ms)
          \<and> (3, 1) \<in> set ms \<and> (1, 1) \<in> set ms"
  proof -
    from sliding_moves_per_direction[OF wf, of white_bishop_c1
        "{(- 1, 1), (1, 1), (1, - 1), (- 1, - 1)}"] kb
    obtain ms where
      g: "get_possible_moves white_bishop_c1 script_board = Some (Inr ms)"
      and c: "\<forall>d \<in> {(- 1, 1), (1, 1), (1, - 1), (- 1, - 1)}. \<forall>k\<ge>1.
                square_at white_bishop_c1 d k \<in> set ms \<longleftrightarrow>
                  (\<forall>j. 1 \<le> j \<and> j < k \<longrightarrow> vacant script_board (square_at white_bishop_c1 d j))
                  \<and> (vacant script_board (square_at white_bishop_c1 d k)
                       \<or> enemy white_bishop_c1 script_board (square_at white_bishop_c1 d k))"
      by blast
    have c': "square_at white_bishop_c1 d 1 \<in> set ms \<longleftrightarrow>
                  (vacant script_board (square_at white_bishop_c1 d 1)
                       \<or> enemy white_bishop_c1 script_board (square_at white_bishop_c1 d 1))"
      if "d = (1, 1) \<or> d = (- 1, 1)" for d
      using c that by auto
    have v1: "vacant script_board (square_at white_bishop_c1 (1, 1) 1)" by code_simp
    have v2: "vacant script_board (square_at white_bishop_c1 (- 1, 1) 1)" by code_simp
    have s1: "square_at white_bishop_c1 (1, 1) 1 = (3, 1)" by code_simp
    have s2: "square_at white_bishop_c1 (- 1, 1) 1 = (1, 1)" by code_simp
    have "(3, 1) \<in> set ms" using c'[of "(1, 1)"] v1 s1 by simp
    moreover have "(1, 1) \<in> set ms" using c'[of "(- 1, 1)"] v2 s2 by simp
    ultimately show ?thesis using g by blast
  qed
  from wf kr kb rook bishop show ?thesis by blast
qed

section \<open>What every list of moves has in common\<close>

lemma lands_in_bounds:
  "wf_board b \<Longrightarrow> in_bounds (fst s) (snd s) \<Longrightarrow> lands self b s \<longleftrightarrow> vacant b s \<or> enemy self b s"
  by (simp add: lands_def getitem2_in_bounds vacant_iff enemy_iff split: option.splits)

lemma landing_in_bounds: "vacant b s \<or> enemy self b s \<Longrightarrow> in_bounds (fst s) (snd s)"
  by (auto simp: vacant_iff enemy_iff)

lemma square_at_not_own:
  "unit_step dx dy \<Longrightarrow> 1 \<le> k \<Longrightarrow> square_at self (dx, dy) k \<noteq> position self"
  by (auto simp: unit_step_def square_at_def prod_eq_iff)

lemma directions_of_unit: "(dx, dy) \<in> set (directions_of K) \<Longrightarrow> unit_step dx dy"
  using Rook_directions_unit Bishop_directions_unit
  by (cases K) (auto simp: directions_of_def)

lemma slider_moves_sound:
  assumes wf: "wf_board b" and sl: "kind self = Rook \<or> kind self = Bishop"
  shows "\<exists>ms. get_possible_moves self b = Some (Inr ms)
           \<and> (\<forall>s \<in> set ms. s \<noteq> position self \<and> (vacant b s \<or> enemy self b s))"
proof -
  from slider_moves_char[OF wf sl] obtain ms where
    g: "get_possible_moves self b = Some (Inr ms)"
    and m: "\<And>s. s \<in> set ms \<longleftrightarrow>
              (\<exists>(dx, dy) \<in> set (directions_of (kind self)).
                 hits self b dx dy (fst (position self) + dx) (snd (position self) + dy) s)"
    by blast
  have "s \<noteq> position self \<and> (vacant b s \<or> enemy self b s)" if "s \<in> set ms" for s
  proof -
    from that m obtain dx dy where d: "(dx, dy) \<in> set (directions_of (kind self))"
      and h: "hits self b dx dy (fst (position self) + dx) (snd (position self) + dy) s"
      by blast
    from h obtain k where "1 \<le> k" "s = square_at self (dx, dy) k"
      unfolding hits_from_piece by blast
    with square_at_not_own[OF directions_of_unit[OF d]] have "s \<noteq> position self" by simp
    with hits_landing[OF h] show ?thesis by simp
  qed
  with g show ?thesis by blast
qed

lemma pawn_moves_land:
  assumes "Pawn_get_possible_moves self b = Inr ms" and "s \<in> set ms"
  shows "lands self b s \<and> s \<noteq> position self"
proof -
  obtain x y where pos: "position self = (x, y)" by (cases "position self")
  have fw: "pawn_forward self b = Inr m0 \<Longrightarrow> s \<in> set m0 \<Longrightarrow> lands self b s \<and> s \<noteq> (x, y)" for m0 s
    by (auto simp: pawn_forward_def pos pawn_direction_eq lands_def Let_def
             split: if_splits sum.splits option.splits)
  have dg: "pawn_diagonals self b dxs acc = Inr m1 \<Longrightarrow> s \<in> set m1
              \<Longrightarrow> s \<in> set acc \<or> (lands self b s \<and> s \<noteq> (x, y))" for dxs acc m1 s
  proof (induction dxs arbitrary: acc)
    case Nil
    then show ?case by simp
  next
    case (Cons dx dxs)
    show ?case
    proof (cases "in_bounds (x + dx) (y - 1)")
      case False
      with Cons.prems have "pawn_diagonals self b dxs acc = Inr m1"
        by (simp add: pos pawn_direction_eq)
      from Cons.IH[OF this Cons.prems(2)] show ?thesis .
    next
      case True
      show ?thesis
      proof (cases "getitem2 b (x + dx) (y - 1)")
        case (Inl e)
        with Cons.prems True show ?thesis by (simp add: pos pawn_direction_eq)
      next
        case (Inr cell)
        show ?thesis
        proof (cases cell)
          case None
          with Cons.prems True Inr have "pawn_diagonals self b dxs acc = Inr m1"
            by (simp add: pos pawn_direction_eq)
          from Cons.IH[OF this Cons.prems(2)] show ?thesis .
        next
          case (Some t)
          show ?thesis
          proof (cases "color t \<noteq> color self")
            case False
            with Cons.prems True Inr Some have "pawn_diagonals self b dxs acc = Inr m1"
              by (simp add: pos pawn_direction_eq)
            from Cons.IH[OF this Cons.prems(2)] show ?thesis .
          next
            case c: True
            with Cons.prems True Inr Some
            have "pawn_diagonals self b dxs (acc @ [(x + dx, y - 1)]) = Inr m1"
              by (simp add: pos pawn_direction_eq)
            from Cons.IH[OF this Cons.prems(2)]
            have "s \<in> set acc \<or> s = (x + dx, y - 1) \<or> (lands self b s \<and> s \<noteq> (x, y))"
              by auto
            moreover have "lands self b (x + dx, y - 1)"
              using Inr Some c by (simp add: lands_def)
            ultimately show ?thesis by auto
          qed
        qed
      qed
    qed
  qed
  from assms(1) obtain m0 where f0: "pawn_forward self b = Inr m0"
    and d0: "pawn_diagonals self b [- 1, 1] m0 = Inr ms"
    by (auto simp: Pawn_get_possible_moves_def split: sum.splits)
  from dg[OF d0 assms(2)] fw[OF f0, of s] show ?thesis by (auto simp: pos)
qed

lemma moves_total:
  assumes wf: "wf_board b"
  shows "\<exists>res. get_possible_moves self b = Some res"
proof (cases "kind self")
  case Pawn
  then show ?thesis by (simp add: get_possible_moves_def)
next
  case Rook
  with slider_moves_char[OF wf, of self] show ?thesis by auto
next
  case Bishop
  with slider_moves_char[OF wf, of self] show ?thesis by auto
qed

lemma moves_land:
  assumes wf: "wf_board b" and g: "get_possible_moves self b = Some (Inr ms)" and s: "s \<in> set ms"
  shows "lands self b s \<and> s \<noteq> position self"
proof (cases "kind self = Pawn")
  case True
  with g have "Pawn_get_possible_moves self b = Inr ms" by (simp add: get_possible_moves_def)
  from pawn_moves_land[OF this s] show ?thesis .
next
  case False
  then have sl: "kind self = Rook \<or> kind self = Bishop" by (cases "kind self") auto
  from slider_moves_sound[OF wf sl] g s
  have a: "s \<noteq> position self" and b: "vacant b s \<or> enemy self b s" by auto
  from lands_in_bounds[OF wf landing_in_bounds[OF b]] a b show ?thesis by simp
qed

lemma moves_sound:
  assumes wf: "wf_board b" and inb: "in_bounds (fst (position self)) (snd (position self))"
  shows "\<exists>ms. get_possible_moves self b = Some (Inr ms)
           \<and> (\<forall>s \<in> set ms. s \<noteq> position self \<and> (vacant b s \<or> enemy self b s))"
proof (cases "kind self = Pawn")
  case True
  obtain x y where pos: "position self = (x, y)" by (cases "position self")
  with inb have "in_bounds x y" by simp
  from pawn_moves_char[OF wf pos this] True pos show ?thesis
    by (auto simp: get_possible_moves_def)
next
  case False
  then have sl: "kind self = Rook \<or> kind self = Bishop" by (cases "kind self") auto
  from slider_moves_sound[OF wf sl] show ?thesis .
qed

text \<open>
  C8.  For a Pawn, Rook or Bishop standing on a square of an 8 by 8 board,
  \<^verbatim>\<open>get_possible_moves\<close> returns a list, and both coordinates of every square in it
  lie between 0 and 7.
\<close>

theorem possible_moves_in_bounds:
  assumes "wf_board b" and "in_bounds (fst (position self)) (snd (position self))"
  shows "\<exists>ms. get_possible_moves self b = Some (Inr ms)
           \<and> (\<forall>(x, y) \<in> set ms. 0 \<le> x \<and> x \<le> 7 \<and> 0 \<le> y \<and> y \<le> 7)"
proof -
  from moves_sound[OF assms] obtain ms where
    g: "get_possible_moves self b = Some (Inr ms)"
    and l: "\<forall>s \<in> set ms. vacant b s \<or> enemy self b s"
    by blast
  have "0 \<le> x \<and> x \<le> 7 \<and> 0 \<le> y \<and> y \<le> 7" if "(x, y) \<in> set ms" for x y
    using landing_in_bounds[of b "(x, y)" self] l that by (auto simp: in_bounds_def)
  with g show ?thesis by blast
qed

theorem possible_moves_in_bounds_witness:
  "wf_board script_board
   \<and> in_bounds (fst (position black_rook_f3)) (snd (position black_rook_f3))
   \<and> (\<exists>ms. get_possible_moves black_rook_f3 script_board = Some (Inr ms)
          \<and> ms \<noteq> [] \<and> list_all (\<lambda>(x, y). 0 \<le> x \<and> x \<le> 7 \<and> 0 \<le> y \<and> y \<le> 7) ms)"
proof -
  have wf: "wf_board script_board" by code_simp
  have inb: "in_bounds (fst (position black_rook_f3)) (snd (position black_rook_f3))"
    by code_simp
  have ev: "get_possible_moves black_rook_f3 script_board
              = Some (Inr [(6, 2), (7, 2), (4, 2), (3, 2), (2, 2), (1, 2), (0, 2),
                           (5, 3), (5, 4), (5, 5), (5, 6), (5, 7), (5, 1), (5, 0)])"
    by code_simp
  from possible_moves_in_bounds[OF wf inb] ev wf inb show ?thesis
    by (auto simp: list_all_iff)
qed

section \<open>Placing and moving on the grid\<close>

lemma wf_board_put: "wf_board b \<Longrightarrow> wf_board (put b s v)"
proof (cases "nat (snd s) < length b")
  case False
  assume "wf_board b"
  moreover from False have "put b s v = b" by (simp add: put_def list_update_beyond)
  ultimately show ?thesis by simp
next
  case True
  assume wf: "wf_board b"
  from True have "b ! nat (snd s) \<in> set b" by (rule nth_mem)
  with wf have l: "length ((b ! nat (snd s))[nat (fst s) := v]) = 8"
    by (simp add: wf_board_def)
  have "length row = 8" if "row \<in> set (put b s v)" for row
  proof -
    have "set (put b s v) \<subseteq> insert ((b ! nat (snd s))[nat (fst s) := v]) (set b)"
      unfolding put_def by (rule set_update_subset_insert)
    from subsetD[OF this that]
    have "row \<in> insert ((b ! nat (snd s))[nat (fst s) := v]) (set b)" .
    then have "row = (b ! nat (snd s))[nat (fst s) := v] \<or> row \<in> set b" by simp
    then show ?thesis
    proof
      assume "row = (b ! nat (snd s))[nat (fst s) := v]"
      with l show ?thesis by simp
    next
      assume "row \<in> set b"
      with wf show ?thesis by (simp add: wf_board_def)
    qed
  qed
  moreover have "length (put b s v) = 8" using wf by (simp add: put_def wf_board_def)
  ultimately show ?thesis unfolding wf_board_def by blast
qed

lemma nth_put:
  assumes wf: "wf_board b" and s: "in_bounds (fst s) (snd s)" and t: "in_bounds (fst t) (snd t)"
  shows "put b s v ! nat (snd t) ! nat (fst t) = (if t = s then v else b ! nat (snd t) ! nat (fst t))"
proof -
  have ly: "nat (snd s) < length b" "nat (snd t) < length b"
    using wf s t unfolding wf_board_def in_bounds_def by linarith+
  have lx: "nat (fst s) < length (b ! nat (snd s))"
    using wf_board_row[OF wf, of "fst s" "snd s"] s unfolding in_bounds_def by linarith
  have eq: "t = s \<longleftrightarrow> nat (snd t) = nat (snd s) \<and> nat (fst t) = nat (fst s)"
    using s t unfolding in_bounds_def by (auto simp: prod_eq_iff)
  show ?thesis
    using ly lx unfolding put_def by (auto simp: eq nth_list_update)
qed

lemma setitem2_put:
  "wf_board b \<Longrightarrow> in_bounds (fst s) (snd s) \<Longrightarrow> setitem2 b (fst s) (snd s) v = Inr (put b s v)"
  by (simp add: setitem2_in_bounds put_def)

lemma wf_board_snapshot: "wf_board (snapshot st) \<longleftrightarrow> wf_board (board st)"
  by (simp add: snapshot_def wf_board_def)

lemma py_index_map: "py_index (map f xs) i = py_index xs i"
  by (simp add: py_index_def)

lemma py_index_less: "py_index xs i = Some n \<Longrightarrow> n < length xs"
  by (auto simp: py_index_def split: if_splits)

lemma getitem2_snapshot:
  "getitem2 (snapshot st) x y =
     (case getitem2 (board st) x y of Inl e \<Rightarrow> Inl e | Inr c \<Rightarrow> Inr (map_option (objects st) c))"
proof (cases "py_index (board st) y")
  case None
  then show ?thesis by (simp add: getitem2_def snapshot_def py_index_map)
next
  case (Some r)
  then have r: "r < length (board st)" by (rule py_index_less)
  show ?thesis
  proof (cases "py_index (board st ! r) x")
    case None
    with Some r show ?thesis by (simp add: getitem2_def snapshot_def py_index_map)
  next
    case c: (Some c)
    then have "c < length (board st ! r)" by (rule py_index_less)
    with Some r c show ?thesis by (simp add: getitem2_def snapshot_def py_index_map)
  qed
qed

lemma getitem2_cell:
  "wf_board (board st) \<Longrightarrow> in_bounds (fst s) (snd s)
     \<Longrightarrow> getitem2 (board st) (fst s) (snd s) = Inr (cell st s)"
  by (simp add: getitem2_in_bounds cell_def)

lemma place_piece_put:
  assumes "wf_board (board st)"
    and "in_bounds (fst (position (objects st r))) (snd (position (objects st r)))"
  shows "place_piece st r = Inr (st\<lparr>board := put (board st) (position (objects st r)) (Some r)\<rparr>)"
proof -
  obtain x y where p: "position (objects st r) = (x, y)" by (cases "position (objects st r)")
  from setitem2_put[OF assms, of "Some r"] show ?thesis
    by (simp add: place_piece_def p)
qed

lemma move_piece_empty:
  assumes "wf_board (board st)" and "in_bounds (fst from_pos) (snd from_pos)"
    and "cell st from_pos = None"
  shows "move_piece st from_pos to_pos = Some (Inr (NoPieceOnSquare, st))"
proof -
  obtain x1 y1 where f: "from_pos = (x1, y1)" by (cases from_pos)
  obtain x2 y2 where t: "to_pos = (x2, y2)" by (cases to_pos)
  from getitem2_cell[OF assms(1,2)] assms(3) show ?thesis
    by (simp add: move_piece_def f t)
qed

lemma move_piece_illegal:
  assumes "wf_board (board st)" and "in_bounds (fst from_pos) (snd from_pos)"
    and "cell st from_pos = Some r"
    and "get_possible_moves (objects st r) (snapshot st) = Some (Inr ms)"
    and "to_pos \<notin> set ms"
  shows "move_piece st from_pos to_pos = Some (Inr (CannotGo r to_pos, st))"
proof -
  obtain x1 y1 where f: "from_pos = (x1, y1)" by (cases from_pos)
  obtain x2 y2 where t: "to_pos = (x2, y2)" by (cases to_pos)
  from getitem2_cell[OF assms(1,2)] assms(3,4,5) show ?thesis
    by (simp add: move_piece_def f t)
qed

lemma move_piece_legal:
  assumes wf: "wf_board (board st)" and f: "in_bounds (fst from_pos) (snd from_pos)"
    and c: "cell st from_pos = Some r"
    and g: "get_possible_moves (objects st r) (snapshot st) = Some (Inr ms)"
    and m: "to_pos \<in> set ms"
    and t: "in_bounds (fst to_pos) (snd to_pos)"
  shows "move_piece st from_pos to_pos =
           Some (Inr (Moving r from_pos to_pos,
             \<lparr>board = put (put (board st) to_pos (Some r)) from_pos None,
              objects = (objects st)(r := (objects st r)\<lparr>position := to_pos\<rparr>)\<rparr>))"
proof -
  obtain x1 y1 where fp: "from_pos = (x1, y1)" by (cases from_pos)
  obtain x2 y2 where tp: "to_pos = (x2, y2)" by (cases to_pos)
  have s1: "setitem2 (board st) (fst to_pos) (snd to_pos) (Some r)
              = Inr (put (board st) to_pos (Some r))"
    using setitem2_put[OF wf t] .
  have s2: "setitem2 (put (board st) to_pos (Some r)) (fst from_pos) (snd from_pos) None
              = Inr (put (put (board st) to_pos (Some r)) from_pos None)"
    using setitem2_put[OF wf_board_put[OF wf] f] .
  show ?thesis
    using getitem2_cell[OF wf f] c g m s1 s2
    by (simp add: move_piece_def fp tp)
qed

text \<open>
  C2 (amended).  The claim asks \<^verbatim>\<open>place\<close> to fail with an OccupiedSquare error on an
  occupied square and to leave the board unchanged.  \<^verbatim>\<open>place_piece\<close> has no such check:
  for a piece whose position is on the 8 by 8 board it always succeeds, stores the piece
  in the cell of its position whatever that cell held, and changes no other cell and no
  piece object.
\<close>

theorem place_piece_overwrites:
  assumes "wf_board (board st)"
    and "in_bounds (fst (position (objects st r))) (snd (position (objects st r)))"
  shows "\<exists>st'. place_piece st r = Inr st'
           \<and> objects st' = objects st
           \<and> cell st' (position (objects st r)) = Some r
           \<and> (\<forall>s. in_bounds (fst s) (snd s) \<and> s \<noteq> position (objects st r)
                  \<longrightarrow> cell st' s = cell st s)"
proof -
  let ?p = "position (objects st r)"
  let ?st' = "st\<lparr>board := put (board st) ?p (Some r)\<rparr>"
  have "cell ?st' ?p = Some r"
    using nth_put[OF assms(1,2) assms(2), of "Some r"] by (simp add: cell_def)
  moreover have "cell ?st' s = cell st s" if "in_bounds (fst s) (snd s) \<and> s \<noteq> ?p" for s
    using nth_put[OF assms(1,2), of s "Some r"] that by (simp add: cell_def)
  ultimately show ?thesis using place_piece_put[OF assms] by simp
qed

theorem place_piece_overwrites_witness:
  "wf_board (board occupied_a1)
   \<and> in_bounds (fst (position (objects occupied_a1 1))) (snd (position (objects occupied_a1 1)))
   \<and> cell occupied_a1 (position (objects occupied_a1 1)) = Some 0
   \<and> (\<exists>st'. place_piece occupied_a1 1 = Inr st'
          \<and> cell st' (position (objects occupied_a1 1)) = Some 1)"
proof -
  have wf: "wf_board (board occupied_a1)"
    by code_simp
  have inb: "in_bounds (fst (position (objects occupied_a1 1)))
                       (snd (position (objects occupied_a1 1)))"
    by code_simp
  have c: "cell occupied_a1 (position (objects occupied_a1 1)) = Some 0"
    by code_simp
  from place_piece_overwrites[OF wf inb] wf inb c show ?thesis by blast
qed

text \<open>
  C2 as stated fails: placing the second rook on the square (0, 0) that already holds
  the first one raises nothing and replaces the occupant.
\<close>

theorem place_piece_on_occupied_square:
  "(case place_piece (ChessBoard_init two_rooks) 0 of
      Inl e \<Rightarrow> False
    | Inr st \<Rightarrow> board st = board occupied_a1)
   \<and> cell occupied_a1 (0, 0) = Some 0
   \<and> position (objects occupied_a1 1) = (0, 0)
   \<and> (case place_piece occupied_a1 1 of
         Inl e \<Rightarrow> False
       | Inr st' \<Rightarrow> cell st' (0, 0) = Some 1)"
  by code_simp

section \<open>Pieces and grid stay in sync\<close>

lemma consistentD:
  "consistent st \<Longrightarrow> in_bounds (fst s) (snd s) \<Longrightarrow> cell st s = Some r
     \<Longrightarrow> position (objects st r) = s"
  unfolding consistent_def by blast

lemma cell_put:
  assumes "wf_board (board st)" and "in_bounds (fst s) (snd s)" and "in_bounds (fst t) (snd t)"
  shows "cell (st\<lparr>board := put (board st) s v\<rparr>) t = (if t = s then v else cell st t)"
  using nth_put[OF assms] by (simp add: cell_def)

lemma wf_board_init: "wf_board (board (ChessBoard_init objs))"
  by (simp add: ChessBoard_init_def wf_board_def)

lemma consistent_init: "consistent (ChessBoard_init objs)"
proof -
  have "cell (ChessBoard_init objs) s = None" if "in_bounds (fst s) (snd s)" for s
  proof -
    from that have "nat (snd s) < 8" "nat (fst s) < 8" unfolding in_bounds_def by linarith+
    then show ?thesis by (simp add: cell_def ChessBoard_init_def)
  qed
  then show ?thesis unfolding consistent_def by fastforce
qed

lemma placed_consistent:
  assumes wf: "wf_board (board st)" and con: "consistent st"
    and inb: "in_bounds (fst (position (objects st r))) (snd (position (objects st r)))"
  shows "consistent (st\<lparr>board := put (board st) (position (objects st r)) (Some r)\<rparr>)"
  unfolding consistent_def
proof (intro allI impI)
  fix s q
  let ?st' = "st\<lparr>board := put (board st) (position (objects st r)) (Some r)\<rparr>"
  assume a: "in_bounds (fst s) (snd s) \<and> cell ?st' s = Some q"
  then have c: "(if s = position (objects st r) then Some r else cell st s) = Some q"
    using cell_put[OF wf inb, of s "Some r"] by simp
  show "position (objects ?st' q) = s"
  proof (cases "s = position (objects st r)")
    case True
    with c show ?thesis by simp
  next
    case False
    with c have "cell st s = Some q" by simp
    from consistentD[OF con _ this] a show ?thesis by simp
  qed
qed

lemma moved_cells:
  assumes wf: "wf_board (board st)"
    and f: "in_bounds (fst f) (snd f)" and t: "in_bounds (fst t) (snd t)"
    and s: "in_bounds (fst s) (snd s)"
  shows "cell \<lparr>board = put (put (board st) t (Some r)) f None, objects = objs\<rparr> s
           = (if s = f then None else if s = t then Some r else cell st s)"
  using nth_put[OF wf_board_put[OF wf] f s, of t "Some r" None] nth_put[OF wf t s, of "Some r"]
  by (simp add: cell_def)

lemma moved_consistent:
  assumes wf: "wf_board (board st)" and con: "consistent st"
    and f: "in_bounds (fst f) (snd f)" and t: "in_bounds (fst t) (snd t)"
    and c: "cell st f = Some r"
  shows "consistent \<lparr>board = put (put (board st) t (Some r)) f None,
                     objects = (objects st)(r := (objects st r)\<lparr>position := t\<rparr>)\<rparr>"
  unfolding consistent_def
proof (intro allI impI)
  fix s q
  let ?st' = "\<lparr>board = put (put (board st) t (Some r)) f None,
               objects = (objects st)(r := (objects st r)\<lparr>position := t\<rparr>)\<rparr>"
  assume a: "in_bounds (fst s) (snd s) \<and> cell ?st' s = Some q"
  then have s: "in_bounds (fst s) (snd s)" by simp
  from a moved_cells[OF wf f t s]
  have e: "(if s = f then None else if s = t then Some r else cell st s) = Some q" by simp
  then have nf: "s \<noteq> f" by (auto split: if_splits)
  show "position (objects ?st' q) = s"
  proof (cases "s = t")
    case True
    with e nf show ?thesis by simp
  next
    case False
    with e nf have cq: "cell st s = Some q" by simp
    from consistentD[OF con s cq] have pq: "position (objects st q) = s" .
    from consistentD[OF con f c] have "position (objects st r) = f" .
    with pq nf have "q \<noteq> r" by auto
    with pq show ?thesis by simp
  qed
qed

lemma py_index_length: "length xs = length ys \<Longrightarrow> py_index xs i = py_index ys i"
  by (simp add: py_index_def)

lemma getitem2_square:
  assumes wf: "wf_board b" and g: "getitem2 b x y = Inr c"
  shows "\<exists>s. in_bounds (fst s) (snd s) \<and> c = b ! nat (snd s) ! nat (fst s)
           \<and> (\<forall>b' v. wf_board b' \<longrightarrow> setitem2 b' x y (v::'a) = Inr (put b' s v))"
proof -
  from g obtain n where n: "py_index b y = Some n"
    by (auto simp: getitem2_def split: option.splits)
  from g n obtain m where m: "py_index (b ! n) x = Some m" and c: "c = b ! n ! m"
    by (auto simp: getitem2_def split: option.splits)
  from py_index_less[OF n] wf have n8: "n < 8" by (simp add: wf_board_def)
  with wf have lr: "length (b ! n) = 8" by (simp add: wf_board_def)
  with py_index_less[OF m] have m8: "m < 8" by simp
  have inb: "in_bounds (int m) (int n)" using n8 m8 by (simp add: in_bounds_def)
  have "setitem2 b' x y v = Inr (put b' (int m, int n) v)" if wf': "wf_board b'" for b' and v :: 'a
  proof -
    have "py_index b' y = Some n"
      using n py_index_length[of b' b y] wf wf' by (simp add: wf_board_def)
    moreover have "length (b' ! n) = 8" using wf' n8 by (simp add: wf_board_def)
    then have "py_index (b' ! n) x = Some m"
      using m lr py_index_length[of "b' ! n" "b ! n" x] by simp
    ultimately show ?thesis by (simp add: setitem2_def put_def)
  qed
  with inb c show ?thesis by (intro exI[of _ "(int m, int n)"]) simp
qed

lemma moves_of_placed:
  assumes wf: "wf_board (board st)" and con: "consistent st"
    and f: "in_bounds (fst f) (snd f)" and c: "cell st f = Some r"
  shows "\<exists>ms. get_possible_moves (objects st r) (snapshot st) = Some (Inr ms)
           \<and> (\<forall>t \<in> set ms. t \<noteq> f \<and> in_bounds (fst t) (snd t))"
proof -
  from consistentD[OF con f c] have p: "position (objects st r) = f" .
  from wf have wfs: "wf_board (snapshot st)" by (simp add: wf_board_snapshot)
  from moves_sound[OF wfs, of "objects st r"] f p obtain ms where
    g: "get_possible_moves (objects st r) (snapshot st) = Some (Inr ms)"
    and l: "\<forall>s \<in> set ms. s \<noteq> f \<and> (vacant (snapshot st) s \<or> enemy (objects st r) (snapshot st) s)"
    by auto
  from l landing_in_bounds have "\<forall>t \<in> set ms. t \<noteq> f \<and> in_bounds (fst t) (snd t)" by blast
  with g show ?thesis by blast
qed

lemma move_piece_preserves:
  assumes wf: "wf_board (board st)" and con: "consistent st"
    and mv: "move_piece st from_pos to_pos = Some (Inr (rep, st'))"
  shows "wf_board (board st') \<and> consistent st'"
proof -
  obtain x1 y1 where fp: "from_pos = (x1, y1)" by (cases from_pos)
  obtain x2 y2 where tp: "to_pos = (x2, y2)" by (cases to_pos)
  from mv obtain c where gi: "getitem2 (board st) x1 y1 = Inr c"
    by (auto simp: move_piece_def fp tp split: sum.splits)
  from getitem2_square[OF wf gi] obtain f where f: "in_bounds (fst f) (snd f)"
    and cf: "c = cell st f"
    and si: "\<And>b' v. wf_board b' \<Longrightarrow> setitem2 b' x1 y1 (v::ref option) = Inr (put b' f v)"
    unfolding cell_def by blast
  show ?thesis
  proof (cases c)
    case None
    with mv gi have "st' = st" by (simp add: move_piece_def fp tp)
    with wf con show ?thesis by simp
  next
    case (Some r)
    with cf have c: "cell st f = Some r" by simp
    from moves_of_placed[OF wf con f c] obtain ms where
      g: "get_possible_moves (objects st r) (snapshot st) = Some (Inr ms)"
      and l: "\<forall>t \<in> set ms. t \<noteq> f \<and> in_bounds (fst t) (snd t)"
      by blast
    show ?thesis
    proof (cases "to_pos \<in> set ms")
      case False
      with mv gi Some g have "st' = st" by (simp add: move_piece_def fp tp)
      with wf con show ?thesis by simp
    next
      case True
      with l have t: "in_bounds (fst to_pos) (snd to_pos)" by blast
      from setitem2_put[OF wf t, of "Some r"]
      have s1: "setitem2 (board st) x2 y2 (Some r) = Inr (put (board st) to_pos (Some r))"
        by (simp add: tp)
      have s2: "setitem2 (put (board st) to_pos (Some r)) x1 y1 None
                  = Inr (put (put (board st) to_pos (Some r)) f None)"
        by (rule si[OF wf_board_put[OF wf]])
      from mv gi Some g True s1 s2
      have st': "st' = \<lparr>board = put (put (board st) to_pos (Some r)) f None,
                         objects = (objects st)(r := (objects st r)\<lparr>position := to_pos\<rparr>)\<rparr>"
        by (simp add: move_piece_def fp tp)
      from moved_consistent[OF wf con f t c] wf_board_put[OF wf_board_put[OF wf]] st'
      show ?thesis by simp
    qed
  qed
qed

lemma reachable_inv: "reachable_on_squares st \<Longrightarrow> wf_board (board st) \<and> consistent st"
proof (induction rule: reachable_on_squares.induct)
  case (init objs)
  show ?case using wf_board_init consistent_init by blast
next
  case (place st r st')
  then have wf: "wf_board (board st)" and con: "consistent st" by simp_all
  from place.hyps(2)
  have inb: "in_bounds (fst (position (objects st r))) (snd (position (objects st r)))"
    by (simp add: square_iff)
  from place.hyps(3) place_piece_put[OF wf inb]
  have "st' = st\<lparr>board := put (board st) (position (objects st r)) (Some r)\<rparr>" by simp
  with placed_consistent[OF wf con inb] wf_board_put[OF wf] show ?case by simp
next
  case (move st from_pos to_pos rep st')
  then show ?case using move_piece_preserves by blast
qed

lemma capture_board_reachable: "reachable_on_squares capture_board"
proof -
  have 1: "place_piece (ChessBoard_init capture_objs) 0
             = Inr \<lparr>board = (replicate 8 (replicate 8 None))[0 := (replicate 8 None)[0 := Some 0]],
                    objects = capture_objs\<rparr>"
    by (simp add: place_piece_def ChessBoard_init_def capture_objs_def setitem2_def py_index_def)
  have 2: "place_piece \<lparr>board = (replicate 8 (replicate 8 None))[0 := (replicate 8 None)[0 := Some 0]],
                    objects = capture_objs\<rparr> 1 = Inr capture_board"
    by (simp add: place_piece_def capture_board_def capture_objs_def setitem2_def py_index_def)
  have "square (position (capture_objs 0))"
    by (simp add: capture_objs_def square_def)
  from reachable_on_squares.place[OF reachable_on_squares.init, of capture_objs 0, OF _ 1] this
  have r1: "reachable_on_squares
              \<lparr>board = (replicate 8 (replicate 8 None))[0 := (replicate 8 None)[0 := Some 0]],
               objects = capture_objs\<rparr>"
    by (simp add: ChessBoard_init_def)
  have "square (position (capture_objs 1))"
    by (simp add: capture_objs_def square_def)
  from reachable_on_squares.place[OF r1 _ 2] this show ?thesis by simp
qed




section \<open>The outcomes of \<^verbatim>\<open>move_piece\<close>\<close>

text \<open>
  C3 (amended).  The claim asks \<^verbatim>\<open>move_piece\<close> to fail with a NoPieceAtSquare or an
  IllegalMove error.  \<^verbatim>\<open>move_piece\<close> raises nothing and returns nothing in these cases:
  it prints and returns.  On an 8 by 8 board, called from a square whose cell is empty it
  prints the no-piece message (\<open>NoPieceOnSquare\<close>); called from a square holding a piece
  (whose position is a square of the board) the piece's list of possible moves exists,
  and for a destination outside it the cannot-go message (\<open>CannotGo\<close>) is printed.  The
  two messages differ from each other and from the message of a move, and in both cases
  the state after the call is the state before it: every cell and every piece object, so
  every position, is as it was.
\<close>

theorem failed_move_reported_and_harmless:
  assumes "wf_board (board st)" and "in_bounds (fst from_pos) (snd from_pos)"
  shows "(cell st from_pos = None
            \<longrightarrow> move_piece st from_pos to_pos = Some (Inr (NoPieceOnSquare, st)))
       \<and> (\<forall>r. cell st from_pos = Some r
                \<and> in_bounds (fst (position (objects st r))) (snd (position (objects st r)))
            \<longrightarrow> (\<exists>ms. get_possible_moves (objects st r) (snapshot st) = Some (Inr ms)
                   \<and> (to_pos \<notin> set ms
                        \<longrightarrow> move_piece st from_pos to_pos = Some (Inr (CannotGo r to_pos, st)))))
       \<and> (\<forall>r. NoPieceOnSquare \<noteq> CannotGo r to_pos
              \<and> NoPieceOnSquare \<noteq> Moving r from_pos to_pos
              \<and> CannotGo r to_pos \<noteq> Moving r from_pos to_pos)"
proof -
  have a: "move_piece st from_pos to_pos = Some (Inr (NoPieceOnSquare, st))"
    if "cell st from_pos = None"
    using move_piece_empty[OF assms that] .
  have b: "\<exists>ms. get_possible_moves (objects st r) (snapshot st) = Some (Inr ms)
                   \<and> (to_pos \<notin> set ms
                        \<longrightarrow> move_piece st from_pos to_pos = Some (Inr (CannotGo r to_pos, st)))"
    if h: "cell st from_pos = Some r
             \<and> in_bounds (fst (position (objects st r))) (snd (position (objects st r)))" for r
  proof -
    from assms(1) have wfs: "wf_board (snapshot st)" by (simp add: wf_board_snapshot)
    from h moves_sound[OF wfs, of "objects st r"] obtain ms where
      g: "get_possible_moves (objects st r) (snapshot st) = Some (Inr ms)" by blast
    from h have c: "cell st from_pos = Some r" by simp
    from move_piece_illegal[OF assms c g] g show ?thesis by blast
  qed
  from a b show ?thesis by simp
qed

theorem failed_move_reported_and_harmless_witness:
  "wf_board (board capture_board)
   \<and> cell capture_board (5, 5) = None
   \<and> move_piece capture_board (5, 5) (5, 6) = Some (Inr (NoPieceOnSquare, capture_board))
   \<and> cell capture_board (0, 0) = Some 0
   \<and> move_piece capture_board (0, 0) (1, 1) = Some (Inr (CannotGo 0 (1, 1), capture_board))"
proof -
  have wf: "wf_board (board capture_board)" by code_simp
  have i5: "in_bounds (fst (5, 5)) (snd (5, 5))" by (simp add: in_bounds_def)
  have i0: "in_bounds (fst (0, 0)) (snd (0, 0))" by (simp add: in_bounds_def)
  have c5: "cell capture_board (5, 5) = None" by code_simp
  have c0: "cell capture_board (0, 0) = Some 0" by code_simp
  have p0: "in_bounds (fst (position (objects capture_board 0)))
                      (snd (position (objects capture_board 0)))" by code_simp
  have ev: "get_possible_moves (objects capture_board 0) (snapshot capture_board)
              = Some (Inr [(1, 0), (2, 0), (3, 0), (4, 0), (5, 0), (6, 0), (7, 0),
                           (0, 1), (0, 2), (0, 3)])"
    by code_simp
  from failed_move_reported_and_harmless[OF wf i5, of "(5, 6)"] c5
  have 1: "move_piece capture_board (5, 5) (5, 6) = Some (Inr (NoPieceOnSquare, capture_board))"
    by blast
  from failed_move_reported_and_harmless[OF wf i0, of "(1, 1)"] c0 p0
  obtain ms where "get_possible_moves (objects capture_board 0) (snapshot capture_board)
                     = Some (Inr ms)"
    and "(1, 1) \<notin> set ms
           \<longrightarrow> move_piece capture_board (0, 0) (1, 1)
                 = Some (Inr (CannotGo 0 (1, 1), capture_board))"
    by blast
  with ev have 2: "move_piece capture_board (0, 0) (1, 1)
                     = Some (Inr (CannotGo 0 (1, 1), capture_board))"
    by auto
  from wf c5 1 c0 2 show ?thesis by blast
qed

text \<open>
  C3 as stated fails: the call from the empty square (5, 5) and the call that asks the
  rook on (0, 0) to go to (1, 1) both return normally (\<open>Inr\<close>); no error reaches the
  caller, who is told of the failure by the printed line alone.
\<close>

theorem failed_move_returns_normally:
  "cell capture_board (5, 5) = None
   \<and> move_piece capture_board (5, 5) (5, 6) = Some (Inr (NoPieceOnSquare, capture_board))
   \<and> cell capture_board (0, 0) = Some 0
   \<and> move_piece capture_board (0, 0) (1, 1) = Some (Inr (CannotGo 0 (1, 1), capture_board))"
proof -
  have wf: "wf_board (board capture_board)" by code_simp
  have i5: "in_bounds (fst (5, 5)) (snd (5, 5))" by (simp add: in_bounds_def)
  have i0: "in_bounds (fst (0, 0)) (snd (0, 0))" by (simp add: in_bounds_def)
  have c5: "cell capture_board (5, 5) = None" by code_simp
  have c0: "cell capture_board (0, 0) = Some 0" by code_simp
  have ev: "get_possible_moves (objects capture_board 0) (snapshot capture_board)
              = Some (Inr [(1, 0), (2, 0), (3, 0), (4, 0), (5, 0), (6, 0), (7, 0),
                           (0, 1), (0, 2), (0, 3)])"
    by code_simp
  have n: "(1, 1) \<notin> set [(1, 0), (2, 0), (3, 0), (4, 0), (5, 0), (6, 0), (7, 0),
                           (0, 1), (0, 2), (0::int, 3::int)]" by simp
  from move_piece_empty[OF wf i5 c5, of "(5, 6)"] move_piece_illegal[OF wf i0 c0 ev n] c5 c0
  show ?thesis by simp
qed

text \<open>
  C4.  In a state of an 8 by 8 board whose pieces carry the squares of their cells, let a
  piece stand on \<open>from_pos\<close> and let \<open>to_pos\<close> be one of its possible moves.  Then
  \<^verbatim>\<open>move_piece\<close> reports the move, and afterwards the cell of \<open>from_pos\<close> is empty, the
  cell of \<open>to_pos\<close> holds the moved piece, whose \<^verbatim>\<open>position\<close> is \<open>to_pos\<close> (its kind and
  colour are unchanged), no other piece object and no other cell has changed, and a
  piece that stood on \<open>to_pos\<close> is in no cell of the board any more.
\<close>

theorem legal_move_applied:
  assumes wf: "wf_board (board st)" and con: "consistent st"
    and f: "in_bounds (fst from_pos) (snd from_pos)"
    and c: "cell st from_pos = Some r"
    and g: "get_possible_moves (objects st r) (snapshot st) = Some (Inr ms)"
    and m: "to_pos \<in> set ms"
  shows "\<exists>st'. move_piece st from_pos to_pos = Some (Inr (Moving r from_pos to_pos, st'))
           \<and> cell st' from_pos = None
           \<and> cell st' to_pos = Some r
           \<and> objects st' r = (objects st r)\<lparr>position := to_pos\<rparr>
           \<and> (\<forall>q. q \<noteq> r \<longrightarrow> objects st' q = objects st q)
           \<and> (\<forall>s. in_bounds (fst s) (snd s) \<and> s \<noteq> from_pos \<and> s \<noteq> to_pos
                  \<longrightarrow> cell st' s = cell st s)
           \<and> (\<forall>q. cell st to_pos = Some q \<longrightarrow> \<not> on_board st' q)"
proof -
  let ?st' = "\<lparr>board = put (put (board st) to_pos (Some r)) from_pos None,
               objects = (objects st)(r := (objects st r)\<lparr>position := to_pos\<rparr>)\<rparr>"
  from moves_of_placed[OF wf con f c] g m
  have ne: "to_pos \<noteq> from_pos" and t: "in_bounds (fst to_pos) (snd to_pos)" by auto
  note cells = moved_cells[OF wf f t, of _ r "(objects st)(r := (objects st r)\<lparr>position := to_pos\<rparr>)"]
  have mv: "move_piece st from_pos to_pos = Some (Inr (Moving r from_pos to_pos, ?st'))"
    by (rule move_piece_legal[OF wf f c g m t])
  have 1: "cell ?st' from_pos = None" using cells[OF f] by simp
  have 2: "cell ?st' to_pos = Some r" using cells[OF t] ne by simp
  have 3: "objects ?st' r = (objects st r)\<lparr>position := to_pos\<rparr>" by simp
  have 4: "\<forall>q. q \<noteq> r \<longrightarrow> objects ?st' q = objects st q" by simp
  have 5: "\<forall>s. in_bounds (fst s) (snd s) \<and> s \<noteq> from_pos \<and> s \<noteq> to_pos
                  \<longrightarrow> cell ?st' s = cell st s"
    using cells by simp
  have 6: "\<not> on_board ?st' q" if q: "cell st to_pos = Some q" for q
  proof
    assume "on_board ?st' q"
    then obtain s where s: "in_bounds (fst s) (snd s)" and cs: "cell ?st' s = Some q"
      unfolding on_board_def by blast
    from cs cells[OF s] have nf: "s \<noteq> from_pos" by (auto split: if_splits)
    from consistentD[OF con t q] have pq: "position (objects st q) = to_pos" .
    from consistentD[OF con f c] have pr: "position (objects st r) = from_pos" .
    from pq pr ne have qr: "q \<noteq> r" by auto
    show False
    proof (cases "s = to_pos")
      case True
      with cs 2 qr show False by simp
    next
      case False
      with cs cells[OF s] nf have "cell st s = Some q" by simp
      from consistentD[OF con s this] pq False show False by simp
    qed
  qed
  from mv 1 2 3 4 5 6 show ?thesis by blast
qed

theorem legal_move_applied_witness:
  "wf_board (board capture_board) \<and> consistent capture_board
   \<and> cell capture_board (0, 0) = Some 0 \<and> cell capture_board (0, 3) = Some 1
   \<and> (\<exists>st'. move_piece capture_board (0, 0) (0, 3) = Some (Inr (Moving 0 (0, 0) (0, 3), st'))
          \<and> cell st' (0, 0) = None \<and> cell st' (0, 3) = Some 0
          \<and> position (objects st' 0) = (0, 3) \<and> \<not> on_board st' 1)"
proof -
  from reachable_inv[OF capture_board_reachable]
  have wf: "wf_board (board capture_board)" and con: "consistent capture_board" by simp_all
  have i0: "in_bounds (fst (0, 0)) (snd (0, 0))" by (simp add: in_bounds_def)
  have c0: "cell capture_board (0, 0) = Some 0" by code_simp
  have c3: "cell capture_board (0, 3) = Some 1" by code_simp
  have ev: "get_possible_moves (objects capture_board 0) (snapshot capture_board)
              = Some (Inr [(1, 0), (2, 0), (3, 0), (4, 0), (5, 0), (6, 0), (7, 0),
                           (0, 1), (0, 2), (0, 3)])"
    by code_simp
  have m: "(0, 3) \<in> set [(1, 0), (2, 0), (3, 0), (4, 0), (5, 0), (6, 0), (7, 0),
                           (0, 1), (0, 2), (0::int, 3::int)]" by simp
  from legal_move_applied[OF wf con i0 c0 ev m] c3
  obtain st' where "move_piece capture_board (0, 0) (0, 3) = Some (Inr (Moving 0 (0, 0) (0, 3), st'))"
    "cell st' (0, 0) = None" "cell st' (0, 3) = Some 0"
    "objects st' 0 = (objects capture_board 0)\<lparr>position := (0, 3)\<rparr>" "\<not> on_board st' 1"
    by blast
  then show ?thesis using wf con c0 c3 by auto
qed

lemma error_is_IndexError: "(e::error) = IndexError"
  by (cases e) simp

lemma move_piece_same_square:
  assumes wf: "wf_board (board st)"
  shows "move_piece st p p = Some (Inl IndexError)
       \<or> move_piece st p p = Some (Inr (NoPieceOnSquare, st))
       \<or> (\<exists>r. move_piece st p p = Some (Inr (CannotGo r p, st)))"
proof -
  obtain x y where p: "p = (x, y)" by (cases p)
  show ?thesis
  proof (cases "getitem2 (board st) x y")
    case (Inl e)
    then have "move_piece st p p = Some (Inl IndexError)"
      using error_is_IndexError[of e] by (simp add: move_piece_def p)
    then show ?thesis by simp
  next
    case (Inr c)
    show ?thesis
    proof (cases c)
      case None
      with Inr have "move_piece st p p = Some (Inr (NoPieceOnSquare, st))"
        by (simp add: move_piece_def p)
      then show ?thesis by simp
    next
      case (Some r)
      from wf have wfs: "wf_board (snapshot st)" by (simp add: wf_board_snapshot)
      from moves_total[OF wfs, of "objects st r"] obtain res where
        g: "get_possible_moves (objects st r) (snapshot st) = Some res" by blast
      show ?thesis
      proof (cases res)
        case (Inl e)
        with Inr Some g have "move_piece st p p = Some (Inl IndexError)"
          using error_is_IndexError[of e] by (simp add: move_piece_def p)
        then show ?thesis by simp
      next
        case ms: (Inr ms)
        have "p \<notin> set ms"
        proof
          assume "p \<in> set ms"
          from moves_land[OF wfs _ this, of "objects st r"] g ms
          have "lands (objects st r) (snapshot st) p" by simp
          then show False
            using Inr Some by (simp add: lands_def p getitem2_snapshot)
        qed
        with Inr Some g ms have "move_piece st p p = Some (Inr (CannotGo r p, st))"
          by (simp add: move_piece_def p)
        then show ?thesis by blast
      qed
    qed
  qed
qed

text \<open>
  C10.  For a Pawn, Rook or Bishop standing on a square of an 8 by 8 board,
  \<^verbatim>\<open>get_possible_moves\<close> returns a list that does not contain the piece's own square.
  Consequently \<^verbatim>\<open>move_piece\<close> with the same source and destination never moves
  anything: it raises IndexError (source off the grid), or reports that the square holds
  no piece, or reports that the piece cannot go there, and the state is unchanged.
\<close>

theorem own_square_is_no_move:
  assumes "wf_board b" and "in_bounds (fst (position self)) (snd (position self))"
    and "wf_board (board st)"
  shows "(\<exists>ms. get_possible_moves self b = Some (Inr ms) \<and> position self \<notin> set ms)
       \<and> (move_piece st p p = Some (Inl IndexError)
          \<or> move_piece st p p = Some (Inr (NoPieceOnSquare, st))
          \<or> (\<exists>r. move_piece st p p = Some (Inr (CannotGo r p, st))))"
proof -
  from moves_sound[OF assms(1,2)] obtain ms where
    g: "get_possible_moves self b = Some (Inr ms)"
    and l: "\<forall>s \<in> set ms. s \<noteq> position self" by blast
  from l have "position self \<notin> set ms" by blast
  with g move_piece_same_square[OF assms(3), of p] show ?thesis by blast
qed

theorem own_square_is_no_move_witness:
  "wf_board script_board
   \<and> in_bounds (fst (position white_bishop_c1)) (snd (position white_bishop_c1))
   \<and> wf_board (board capture_board)
   \<and> (\<exists>ms. get_possible_moves white_bishop_c1 script_board = Some (Inr ms)
          \<and> (2, 0) \<notin> set ms)
   \<and> (\<exists>r. move_piece capture_board (0, 0) (0, 0)
             = Some (Inr (CannotGo r (0, 0), capture_board)))"
proof -
  have wf: "wf_board script_board" by code_simp
  have inb: "in_bounds (fst (position white_bishop_c1)) (snd (position white_bishop_c1))"
    by code_simp
  have wfc: "wf_board (board capture_board)" by code_simp
  have pos: "position white_bishop_c1 = (2, 0)" by (simp add: white_bishop_c1_def)
  have ev: "map_option (map_sum id fst) (move_piece capture_board (0, 0) (0, 0))
              = Some (Inr (CannotGo 0 (0, 0)))"
    by code_simp
  from ev have n1: "move_piece capture_board (0, 0) (0, 0) \<noteq> Some (Inl IndexError)"
    and n2: "move_piece capture_board (0, 0) (0, 0) \<noteq> Some (Inr (NoPieceOnSquare, capture_board))"
    by auto
  from own_square_is_no_move[OF wf inb wfc, of "(0, 0)"] n1 n2 pos wf inb wfc
  show ?thesis by simp
qed

section \<open>Attacks on targets on the board\<close>

lemma all_less_Suc_shift: "(\<forall>j<Suc k. P j) \<longleftrightarrow> P 0 \<and> (\<forall>j<k. P (Suc j))"
  by (auto simp: less_Suc_eq_0_disj)

lemma path_loop_char:
  assumes wf: "wf_board b" and u: "unit_step dx dy"
  shows "(\<forall>j<k. in_bounds (cx + int j * dx) (cy + int j * dy))
     \<Longrightarrow> path_loop b (cx + int k * dx) (cy + int k * dy) dx dy cx cy
           = Some (Inr (\<forall>j<k. vacant b (cx + int j * dx, cy + int j * dy)))"
proof (induction k arbitrary: cx cy)
  case 0
  show ?case by (subst path_loop.simps) simp
next
  case (Suc k)
  have tx: "cx + int (Suc k) * dx = cx + dx + int k * dx"
    and ty: "cy + int (Suc k) * dy = cy + dy + int k * dy"
    by (simp_all add: algebra_simps)
  have ne: "(cx, cy) \<noteq> (cx + dx + int k * dx, cy + dy + int k * dy)"
  proof
    assume "(cx, cy) = (cx + dx + int k * dx, cy + dy + int k * dy)"
    then have "(1 + int k) * dx = 0" "(1 + int k) * dy = 0" by (simp_all add: algebra_simps)
    then have "dx = 0" "dy = 0" by simp_all
    with u show False by (simp add: unit_step_def)
  qed
  from Suc.prems have inb: "in_bounds cx cy" by force
  from getitem2_in_bounds[OF wf inb] have gi: "getitem2 b cx cy = Inr (b ! nat cy ! nat cx)" .
  have shift: "(\<forall>j<Suc k. vacant b (cx + int j * dx, cy + int j * dy))
                 \<longleftrightarrow> vacant b (cx, cy)
                     \<and> (\<forall>j<k. vacant b (cx + dx + int j * dx, cy + dy + int j * dy))"
    by (subst all_less_Suc_shift) (simp add: algebra_simps)
  show ?case
  proof (cases "b ! nat cy ! nat cx")
    case (Some t)
    then have "\<not> vacant b (cx, cy)" by (simp add: vacant_iff)
    with shift have r: "\<not> (\<forall>j<Suc k. vacant b (cx + int j * dx, cy + int j * dy))" by blast
    have "path_loop b (cx + dx + int k * dx) (cy + dy + int k * dy) dx dy cx cy = Some (Inr False)"
      using ne by (subst path_loop.simps) (simp add: gi Some)
    with r show ?thesis unfolding tx ty by simp
  next
    case None
    then have v: "vacant b (cx, cy)" using inb by (simp add: vacant_iff)
    have "\<forall>j<k. in_bounds (cx + dx + int j * dx) (cy + dy + int j * dy)"
    proof (intro allI impI)
      fix j assume "j < k"
      then have "Suc j < Suc k" by simp
      with Suc.prems have "in_bounds (cx + int (Suc j) * dx) (cy + int (Suc j) * dy)" by blast
      then show "in_bounds (cx + dx + int j * dx) (cy + dy + int j * dy)"
        by (simp add: algebra_simps)
    qed
    from Suc.IH[OF this]
    have ih: "path_loop b (cx + dx + int k * dx) (cy + dy + int k * dy) dx dy (cx + dx) (cy + dy)
                = Some (Inr (\<forall>j<k. vacant b (cx + dx + int j * dx, cy + dy + int j * dy)))" .
    have "path_loop b (cx + dx + int k * dx) (cy + dy + int k * dy) dx dy cx cy
            = path_loop b (cx + dx + int k * dx) (cy + dy + int k * dy) dx dy (cx + dx) (cy + dy)"
      using ne by (subst path_loop.simps) (simp add: gi None)
    with ih shift v show ?thesis unfolding tx ty by simp
  qed
qed

lemma between_in_bounds:
  assumes "unit_step dx dy" and "in_bounds px py"
    and "in_bounds (px + int k * dx) (py + int k * dy)" and "j \<le> k"
  shows "in_bounds (px + int j * dx) (py + int j * dy)"
proof -
  from assms(4) have "int j \<le> int k" by simp
  with assms(1,2,3) show ?thesis
    unfolding unit_step_def in_bounds_def by auto
qed

lemma attack_along_line:
  assumes wf: "wf_board b" and u: "unit_step dx dy"
    and src: "in_bounds (fst (position self)) (snd (position self))"
    and k: "1 \<le> k" and tgt: "(x, y) = square_at self (dx, dy) k" and inb: "in_bounds x y"
  shows "attack_along self x y b dx dy
           = Some (Inr ((\<forall>j. 1 \<le> j \<and> j < k \<longrightarrow> vacant b (square_at self (dx, dy) j))
                        \<and> enemy self b (x, y)))"
proof -
  obtain px py where p: "position self = (px, py)" by (cases "position self")
  from k obtain k' where k': "k = Suc k'" by (cases k) auto
  from tgt have x: "x = px + dx + int k' * dx" and y: "y = py + dy + int k' * dy"
    by (simp_all add: k' square_at_Suc p)
  from src p have src': "in_bounds px py" by simp
  from inb have tgt': "in_bounds (px + int k * dx) (py + int k * dy)"
    by (simp add: x y k' algebra_simps)
  have ib: "\<forall>j<k'. in_bounds (px + dx + int j * dx) (py + dy + int j * dy)"
  proof (intro allI impI)
    fix j assume "j < k'"
    then have "Suc j \<le> k" by (simp add: k')
    from between_in_bounds[OF u src' tgt' this]
    show "in_bounds (px + dx + int j * dx) (py + dy + int j * dy)" by (simp add: algebra_simps)
  qed
  have cl: "(\<forall>j<k'. vacant b (px + dx + int j * dx, py + dy + int j * dy))
              \<longleftrightarrow> (\<forall>j. 1 \<le> j \<and> j < k \<longrightarrow> vacant b (square_at self (dx, dy) j))"
    (is "?A \<longleftrightarrow> ?B")
  proof
    assume a: ?A
    show ?B
    proof (intro allI impI)
      fix j assume j: "1 \<le> j \<and> j < k"
      then obtain j' where j': "j = Suc j'" "j' < k'" using k' by (cases j) auto
      with a show "vacant b (square_at self (dx, dy) j)" by (simp add: square_at_Suc p)
    qed
  next
    assume b: ?B
    show ?A
    proof (intro allI impI)
      fix j assume "j < k'"
      then have "1 \<le> Suc j \<and> Suc j < k" by (simp add: k')
      with b have "vacant b (square_at self (dx, dy) (Suc j))" by blast
      then show "vacant b (px + dx + int j * dx, py + dy + int j * dy)"
        by (simp add: square_at_Suc p)
    qed
  qed
  from path_loop_char[OF wf u ib]
  have pc: "is_path_clear self x y b dx dy
              = Some (Inr (\<forall>j. 1 \<le> j \<and> j < k \<longrightarrow> vacant b (square_at self (dx, dy) j)))"
    by (simp add: is_path_clear_def p x y cl)
  from getitem2_in_bounds[OF wf inb] have gi: "getitem2 b x y = Inr (b ! nat y ! nat x)" .
  show ?thesis
    using inb by (simp add: attack_along_def pc gi enemy_iff split: option.splits)
qed

lemma attack_along_attackable:
  assumes wf: "wf_board b" and d: "(dx, dy) \<in> set (directions_of (kind self))"
    and src: "in_bounds (fst (position self)) (snd (position self))"
    and k: "1 \<le> k" and tgt: "(x, y) = square_at self (dx, dy) k" and inb: "in_bounds x y"
  shows "attack_along self x y b dx dy = Some (Inr (attackable self b (x, y)))"
proof -
  have "attackable self b (x, y)
          \<longleftrightarrow> (\<forall>j. 1 \<le> j \<and> j < k \<longrightarrow> vacant b (square_at self (dx, dy) j))
              \<and> enemy self b (x, y)"
    (is "?L \<longleftrightarrow> ?R")
  proof
    assume ?L
    then obtain d' k' where d': "d' \<in> set (directions_of (kind self))" and k': "1 \<le> k'"
      and e: "(x, y) = square_at self d' k'"
      and f: "\<forall>j. 1 \<le> j \<and> j < k' \<longrightarrow> vacant b (square_at self d' j)"
      and en: "enemy self b (x, y)"
      unfolding attackable_def by blast
    from e tgt have "square_at self (dx, dy) k = square_at self d' k'" by simp
    from ray_unique[OF d d' k k' this] f en show ?R by simp
  next
    assume ?R
    with d k tgt show ?L unfolding attackable_def by blast
  qed
  with attack_along_line[OF wf directions_of_unit[OF d] src k tgt inb] show ?thesis by simp
qed

lemma Rook_can_attack_on_board:
  assumes wf: "wf_board b" and r: "kind self = Rook"
    and src: "in_bounds (fst (position self)) (snd (position self))"
    and inb: "in_bounds x y" and ne: "(x, y) \<noteq> position self"
  shows "Rook_can_attack self x y b = Some (Inr (attackable self b (x, y)))"
proof -
  obtain px py where p: "position self = (px, py)" by (cases "position self")
  note aa = attack_along_attackable[OF wf _ src _ _ inb]
  have ds: "set (directions_of (kind self)) = {(1, 0), (- 1, 0), (0, 1), (0, - 1)}"
    by (simp add: r directions_of_def Rook_directions_def)
  consider (off) "x \<noteq> px" "y \<noteq> py" | (up) "x = px" "y > py" | (down) "x = px" "y < py"
    | (right) "y = py" "x > px" | (left) "y = py" "x < px"
    using ne p by fastforce
  then show ?thesis
  proof cases
    case off
    then have "\<not> attackable self b (x, y)"
      by (auto simp: attackable_def ds square_at_def p)
    with off show ?thesis by (simp add: Rook_can_attack_def p)
  next
    case up
    then have "(x, y) = square_at self (0, 1) (nat (y - py))" by (simp add: square_at_def p)
    from aa[OF _ _ this] up show ?thesis by (simp add: Rook_can_attack_def p ds)
  next
    case down
    then have "(x, y) = square_at self (0, - 1) (nat (py - y))" by (simp add: square_at_def p)
    from aa[OF _ _ this] down show ?thesis by (simp add: Rook_can_attack_def p ds)
  next
    case right
    then have "(x, y) = square_at self (1, 0) (nat (x - px))" by (simp add: square_at_def p)
    from aa[OF _ _ this] right show ?thesis by (simp add: Rook_can_attack_def p ds)
  next
    case left
    then have "(x, y) = square_at self (- 1, 0) (nat (px - x))" by (simp add: square_at_def p)
    from aa[OF _ _ this] left show ?thesis by (simp add: Rook_can_attack_def p ds)
  qed
qed

lemma Bishop_can_attack_on_board:
  assumes wf: "wf_board b" and r: "kind self = Bishop"
    and src: "in_bounds (fst (position self)) (snd (position self))"
    and inb: "in_bounds x y" and ne: "(x, y) \<noteq> position self"
  shows "Bishop_can_attack self x y b = Some (Inr (attackable self b (x, y)))"
proof -
  obtain px py where p: "position self = (px, py)" by (cases "position self")
  note aa = attack_along_attackable[OF wf _ src _ _ inb]
  have ds: "set (directions_of (kind self)) = {(- 1, 1), (1, 1), (1, - 1), (- 1, - 1)}"
    by (simp add: r directions_of_def Bishop_directions_def)
  from ne p have "x \<noteq> px \<or> y \<noteq> py" by simp
  then have "\<bar>x - px\<bar> \<noteq> \<bar>y - py\<bar>
      \<or> (x - px > 0 \<and> y - py = x - px) \<or> (x - px > 0 \<and> y - py = - (x - px))
      \<or> (x - px < 0 \<and> y - py = - (x - px)) \<or> (x - px < 0 \<and> y - py = x - px)"
    by arith
  then consider (off) "\<bar>x - px\<bar> \<noteq> \<bar>y - py\<bar>"
    | (ne) "x - px > 0" "y - py = x - px" | (se) "x - px > 0" "y - py = - (x - px)"
    | (nw) "x - px < 0" "y - py = - (x - px)" | (sw) "x - px < 0" "y - py = x - px"
    by blast
  then show ?thesis
  proof cases
    case off
    then have "\<not> attackable self b (x, y)"
      by (auto simp: attackable_def ds square_at_def p)
    with off show ?thesis by (simp add: Bishop_can_attack_def p Let_def)
  next
    case ne
    then have "(x, y) = square_at self (1, 1) (nat (x - px))" by (simp add: square_at_def p)
    from aa[OF _ _ this] ne show ?thesis by (simp add: Bishop_can_attack_def p ds Let_def)
  next
    case se
    then have "(x, y) = square_at self (1, - 1) (nat (x - px))" by (simp add: square_at_def p)
    from aa[OF _ _ this] se show ?thesis by (simp add: Bishop_can_attack_def p ds Let_def)
  next
    case nw
    then have "(x, y) = square_at self (- 1, 1) (nat (px - x))" by (simp add: square_at_def p)
    from aa[OF _ _ this] nw show ?thesis by (simp add: Bishop_can_attack_def p ds Let_def)
  next
    case sw
    then have "(x, y) = square_at self (- 1, - 1) (nat (px - x))" by (simp add: square_at_def p)
    from aa[OF _ _ this] sw show ?thesis by (simp add: Bishop_can_attack_def p ds Let_def)
  qed
qed

text \<open>
  For a target on the board other than the piece's own square, \<^verbatim>\<open>can_attack\<close> of a Rook
  or Bishop returns, and returns what the specification asks.
\<close>

lemma slider_can_attack_on_board:
  assumes "wf_board b" and "kind self = Rook \<or> kind self = Bishop"
    and "in_bounds (fst (position self)) (snd (position self))"
    and "in_bounds x y" and "(x, y) \<noteq> position self"
  shows "can_attack self x y b = Some (Inr (attackable self b (x, y)))"
  using assms(2)
proof
  assume "kind self = Rook"
  with Rook_can_attack_on_board[OF assms(1) this assms(3,4,5)] show ?thesis
    by (simp add: can_attack_def)
next
  assume "kind self = Bishop"
  with Bishop_can_attack_on_board[OF assms(1) this assms(3,4,5)] show ?thesis
    by (simp add: can_attack_def)
qed

section \<open>Targets off the board\<close>

lemma Pawn_can_attack_off_board:
  "\<not> in_bounds x y \<Longrightarrow> can_attack self x y b = Some (Inr False)" if "kind self = Pawn"
  using that by (simp add: can_attack_def Pawn_can_attack_def)

text \<open>
  C6 (the code departs from it).  The claim: for every target, \<^verbatim>\<open>can_attack\<close> of a Rook or
  Bishop returns true exactly when the target is on a matching line, the path is empty
  and the target's cell holds a piece of the other colour, and false otherwise.  For
  targets on the board this is what the code does (\<open>slider_can_attack_on_board\<close>).  For
  the target (8, 6), which is no square of the board and holds nothing, the White bishop
  on (2, 0) returns neither: the diagonal (3, 1) .. (7, 5) is empty, the walk reaches
  the target, and \<^verbatim>\<open>board[6][8]\<close> raises IndexError.
\<close>

theorem bishop_can_attack_off_board_raises:
  "can_attack white_bishop_c1 8 6 board_bishop_pawn = Some (Inl IndexError)"
  by code_simp

text \<open>
  C7 (the code departs from it).  The claim: for a target off the board \<^verbatim>\<open>can_attack\<close>
  returns False without error, the Rook and the Bishop by their geometry alone and
  without reading outside the grid.  The Pawn does (\<open>Pawn_can_attack_off_board\<close>: its
  first statement is the bounds check), but \<^verbatim>\<open>Rook.can_attack\<close> and
  \<^verbatim>\<open>Bishop.can_attack\<close> have no such check.  The White bishop on (2, 0) is said to
  attack the target (-1, 3) when a Black pawn stands on (7, 3): the walk passes (1, 1)
  and (0, 2), reaches the target, and \<^verbatim>\<open>board[3][-1]\<close> is Python's last cell of rank 3.
  The White rook alone on (0, 0) with the target (8, 0) finds rank 0 empty and then reads
  \<^verbatim>\<open>board[0][8]\<close>, which raises IndexError.
\<close>

theorem can_attack_off_board_not_rejected:
  "can_attack white_bishop_c1 (- 1) 3 board_bishop_pawn = Some (Inr True)
   \<and> can_attack white_rook_a1 8 0 board_rook_a1 = Some (Inl IndexError)"
  by code_simp

end
